theory Spec2Isabelle
  imports Complex_Main "HOL-Library.Word"
begin

section \<open>JavaScript numbers and typed-array bytes\<close>

text \<open>
  The channel arithmetic of the image processor, the page count and the memory usage of
  the memory manager are computed on JavaScript numbers, which are doubles. A number is
  modelled as a rational or one of the three special values (a zero is always the
  positive zero). An operation on doubles returns the double that is nearest to the exact
  result; this rounding is the argument \<open>rnd\<close> of the operations below, and the
  properties hold whatever it is. Results beyond the largest double are not modelled.
  Where both operands and the result are integers below \<open>2^53\<close>, the operation on
  doubles is exact: there the rounding is \<open>exact\<close>, which changes nothing.
\<close>

datatype jsnum = Fin rat | PInf | NInf | NaN

type_synonym byte = "8 word"

type_synonym rounding = "rat \<Rightarrow> rat"

definition exact :: rounding where
  "exact q = q"

fun js_div :: "rounding \<Rightarrow> jsnum \<Rightarrow> jsnum \<Rightarrow> jsnum" where
  "js_div rnd NaN _ = NaN"
| "js_div rnd _ NaN = NaN"
| "js_div rnd (Fin a) (Fin b) =
     (if b \<noteq> 0 then Fin (rnd (a / b))
      else if 0 < a then PInf else if a < 0 then NInf else NaN)"
| "js_div rnd (Fin a) PInf = Fin 0"
| "js_div rnd (Fin a) NInf = Fin 0"
| "js_div rnd PInf (Fin b) = (if 0 \<le> b then PInf else NInf)"
| "js_div rnd NInf (Fin b) = (if 0 \<le> b then NInf else PInf)"
| "js_div rnd _ _ = NaN"

fun js_mul :: "rounding \<Rightarrow> jsnum \<Rightarrow> jsnum \<Rightarrow> jsnum" where
  "js_mul rnd NaN _ = NaN"
| "js_mul rnd _ NaN = NaN"
| "js_mul rnd (Fin a) (Fin b) = Fin (rnd (a * b))"
| "js_mul rnd PInf (Fin b) = (if 0 < b then PInf else if b < 0 then NInf else NaN)"
| "js_mul rnd NInf (Fin b) = (if 0 < b then NInf else if b < 0 then PInf else NaN)"
| "js_mul rnd (Fin a) PInf = (if 0 < a then PInf else if a < 0 then NInf else NaN)"
| "js_mul rnd (Fin a) NInf = (if 0 < a then NInf else if a < 0 then PInf else NaN)"
| "js_mul rnd PInf PInf = PInf"
| "js_mul rnd NInf NInf = PInf"
| "js_mul rnd PInf NInf = NInf"
| "js_mul rnd NInf PInf = NInf"

fun js_add :: "rounding \<Rightarrow> jsnum \<Rightarrow> jsnum \<Rightarrow> jsnum" where
  "js_add rnd NaN _ = NaN"
| "js_add rnd _ NaN = NaN"
| "js_add rnd (Fin a) (Fin b) = Fin (rnd (a + b))"
| "js_add rnd PInf NInf = NaN"
| "js_add rnd NInf PInf = NaN"
| "js_add rnd PInf _ = PInf"
| "js_add rnd NInf _ = NInf"
| "js_add rnd _ PInf = PInf"
| "js_add rnd _ NInf = NInf"

text \<open>\<open>Math.ceil\<close>, \<open>Math.round\<close> (halves go up), \<open>Math.min\<close> and \<open>Math.max\<close>.\<close>

fun js_ceil :: "jsnum \<Rightarrow> jsnum" where
  "js_ceil (Fin q) = Fin (of_int \<lceil>q\<rceil>)"
| "js_ceil v = v"

fun js_round :: "jsnum \<Rightarrow> jsnum" where
  "js_round (Fin q) = Fin (of_int \<lfloor>q + 1 / 2\<rfloor>)"
| "js_round v = v"

fun js_min :: "jsnum \<Rightarrow> jsnum \<Rightarrow> jsnum" where
  "js_min NaN _ = NaN"
| "js_min _ NaN = NaN"
| "js_min NInf _ = NInf"
| "js_min _ NInf = NInf"
| "js_min PInf v = v"
| "js_min v PInf = v"
| "js_min (Fin a) (Fin b) = Fin (min a b)"

fun js_max :: "jsnum \<Rightarrow> jsnum \<Rightarrow> jsnum" where
  "js_max NaN _ = NaN"
| "js_max _ NaN = NaN"
| "js_max PInf _ = PInf"
| "js_max _ PInf = PInf"
| "js_max NInf v = v"
| "js_max v NInf = v"
| "js_max (Fin a) (Fin b) = Fin (max a b)"

text \<open>
  Storing a number into a \<open>Uint8ClampedArray\<close>: \<open>NaN\<close> becomes 0, the value is clamped to
  0..255 and rounded to the nearest integer, halves to the even one.
\<close>

fun toUint8Clamp :: "jsnum \<Rightarrow> byte" where
  "toUint8Clamp NaN = 0"
| "toUint8Clamp NInf = 0"
| "toUint8Clamp PInf = 255"
| "toUint8Clamp (Fin q) =
     (if q \<le> 0 then 0
      else if 255 \<le> q then 255
      else let f = \<lfloor>q\<rfloor>; r = q - of_int f in
        if r < 1 / 2 then word_of_int f
        else if 1 / 2 < r then word_of_int (f + 1)
        else if even f then word_of_int f else word_of_int (f + 1))"

definition num :: "byte \<Rightarrow> jsnum" where
  "num b = Fin (of_int (uint b))"

section \<open>The memory manager (src/js/memory/memoryManager.js)\<close>

subsection \<open>Data\<close>

datatype page_status = Active | Inactive

text \<open>A page object of the page table; \<open>data = None\<close> is the source's \<open>null\<close>.\<close>

record page =
  data :: "byte list option"
  status :: page_status
  lastAccessed :: nat
  startPixel :: nat
  endPixel :: nat
  startIndex :: nat
  endIndex :: nat

record stats =
  activePages :: int
  inactivePages :: int
  pageHits :: nat
  pageFaults :: nat
  memoryUsage :: rat
  totalWidth :: "nat option"
  totalHeight :: "nat option"
  totalPixels :: "nat option"
  totalPages :: "jsnum option"

text \<open>
  What the manager sends out: the three event-bus events with their payloads, and the
  \<open>console.error\<close> line of \<open>swapInPage\<close>. A page id \<open>page_i\<close> is the number \<open>i\<close>.
\<close>

datatype signal =
    SwappedOut nat
  | SwappedIn nat
  | StatsUpdated stats
  | ConsoleError nat

record imageData =
  width :: nat
  height :: nat
  imgdata :: "byte list"

record adjustments =
  brightness :: int
  contrast :: int

type_synonym chunkProcessor = "byte list \<Rightarrow> adjustments \<Rightarrow> string \<Rightarrow> byte list"

text \<open>
  The arguments of \<open>setupMemoryManager\<close> (both in MB, 100 and 1 by default), with the
  readings of \<open>Date.now()\<close>: \<open>clock k\<close> is what the \<open>k\<close>-th call returns, and with the
  rounding of the sums and differences of the memory usage: \<open>dbl q\<close> is the double that
  is nearest to \<open>q\<close>.
\<close>

record config =
  memoryLimit :: rat
  pageSize :: rat
  clock :: "nat \<Rightarrow> nat"
  dbl :: rounding

text \<open>
  The closure's variables. The page table is a \<open>Map\<close> that is only ever cleared or
  extended by \<open>page_i\<close> for \<open>i = 0, 1, 2, ...\<close> in this order, so its entries in insertion
  order are a list and the entry at position \<open>i\<close> has the key \<open>page_i\<close>.
  \<open>ticks\<close> counts the calls of \<open>Date.now()\<close> made so far.
\<close>

record mm_state =
  pageTable :: "page list"
  stats :: stats
  processChunkFn :: "chunkProcessor option"
  events :: "signal list"
  ticks :: nat

definition emptyStats :: stats where
  "emptyStats = \<lparr> activePages = 0, inactivePages = 0, pageHits = 0, pageFaults = 0,
     memoryUsage = 0, totalWidth = None, totalHeight = None, totalPixels = None,
     totalPages = None \<rparr>"

definition initialState :: mm_state where
  "initialState = \<lparr> pageTable = [], stats = emptyStats, processChunkFn = None,
     events = [], ticks = 0 \<rparr>"

definition registerChunkProcessor :: "mm_state \<Rightarrow> chunkProcessor \<Rightarrow> mm_state" where
  "registerChunkProcessor s processor = s\<lparr>processChunkFn := Some processor\<rparr>"

definition emit :: "signal \<Rightarrow> mm_state \<Rightarrow> mm_state" where
  "emit e s = s\<lparr>events := events s @ [e]\<rparr>"

definition updateMemoryStats :: "mm_state \<Rightarrow> mm_state" where
  "updateMemoryStats s = emit (StatsUpdated (stats s)) s"

definition clearAllPages :: "mm_state \<Rightarrow> mm_state" where
  "clearAllPages s = updateMemoryStats (s\<lparr>pageTable := [], stats := emptyStats\<rparr>)"

definition has :: "mm_state \<Rightarrow> nat \<Rightarrow> bool" where
  "has s pageId \<longleftrightarrow> pageId < length (pageTable s)"

definition getPage :: "mm_state \<Rightarrow> nat \<Rightarrow> page option" where
  "getPage s pageId =
     (if pageId < length (pageTable s) then Some (pageTable s ! pageId) else None)"

definition setPage :: "nat \<Rightarrow> page \<Rightarrow> mm_state \<Rightarrow> mm_state" where
  "setPage pageId p s = s\<lparr>pageTable := (pageTable s)[pageId := p]\<rparr>"

subsection \<open>Eviction\<close>

text \<open>
  The scan of \<open>swapOutLRUPage\<close> over the entries in insertion order. \<open>oldestTime = None\<close>
  is the initial \<open>Infinity\<close>, \<open>lruPageId = None\<close> the initial \<open>null\<close>.
\<close>

fun lruScan :: "(nat \<times> page) list \<Rightarrow> nat option \<Rightarrow> nat option \<Rightarrow> nat option" where
  "lruScan [] oldestTime lruPageId = lruPageId"
| "lruScan ((pageId, p) # rest) oldestTime lruPageId =
     (if status p = Active \<and>
         (case oldestTime of None \<Rightarrow> True | Some t \<Rightarrow> lastAccessed p < t)
      then lruScan rest (Some (lastAccessed p)) (Some pageId)
      else lruScan rest oldestTime lruPageId)"

definition entries :: "mm_state \<Rightarrow> (nat \<times> page) list" where
  "entries s = zip [0..<length (pageTable s)] (pageTable s)"

definition findLRU :: "mm_state \<Rightarrow> nat option" where
  "findLRU s = lruScan (entries s) None None"

definition swapOutLRUPage :: "config \<Rightarrow> mm_state \<Rightarrow> mm_state" where
  "swapOutLRUPage cfg s =
     (case findLRU s of
        None \<Rightarrow> s
      | Some lruPageId \<Rightarrow>
          let p = pageTable s ! lruPageId;
              s1 = setPage lruPageId (p\<lparr>status := Inactive, data := None\<rparr>) s;
              s2 = s1\<lparr>stats := (stats s1)\<lparr>
                     activePages := activePages (stats s1) - 1,
                     inactivePages := inactivePages (stats s1) + 1,
                     memoryUsage := dbl cfg (memoryUsage (stats s1) - pageSize cfg)\<rparr>\<rparr>
          in emit (SwappedOut lruPageId) s2)"

subsection \<open>Reload\<close>

definition dateNow :: "config \<Rightarrow> mm_state \<Rightarrow> nat" where
  "dateNow cfg s = clock cfg (ticks s)"

definition tick :: "mm_state \<Rightarrow> mm_state" where
  "tick s = s\<lparr>ticks := Suc (ticks s)\<rparr>"

text \<open>
  \<open>swapInPage\<close>. The \<open>await simulatePageLoad()\<close> only lets time pass; runs do not
  overlap, so nothing else touches the state meanwhile. The length of the placeholder is
  \<open>endIndex - startIndex\<close>, which is never negative for a page that \<open>storeImage\<close> built
  (a negative length would make the constructor throw).
\<close>

definition swapInPage :: "config \<Rightarrow> mm_state \<Rightarrow> nat \<Rightarrow> mm_state" where
  "swapInPage cfg s pageId =
     (let s1 = (if memoryLimit cfg < dbl cfg (memoryUsage (stats s) + pageSize cfg)
                then swapOutLRUPage cfg s else s)
      in case getPage s1 pageId of
           None \<Rightarrow> emit (ConsoleError pageId) s1
         | Some p \<Rightarrow>
             if status p = Active
             then tick (setPage pageId (p\<lparr>lastAccessed := dateNow cfg s1\<rparr>) s1)
             else
               let chunkSize = endIndex p - startIndex p;
                   p' = p\<lparr>data := Some (replicate chunkSize 0), status := Active,
                          lastAccessed := dateNow cfg s1\<rparr>;
                   s2 = tick (setPage pageId p' s1);
                   s3 = s2\<lparr>stats := (stats s2)\<lparr>
                          activePages := activePages (stats s2) + 1,
                          inactivePages := inactivePages (stats s2) - 1,
                          memoryUsage := dbl cfg (memoryUsage (stats s2) + pageSize cfg)\<rparr>\<rparr>
               in emit (SwappedIn pageId) s3)"

subsection \<open>Storing an image\<close>

text \<open>
  \<open>Math.floor((pageSize * 1024 * 1024) / 4)\<close>: the multiplications and the division are
  by powers of two, which is exact on doubles.
\<close>

definition pixelsPerPage :: "config \<Rightarrow> int" where
  "pixelsPerPage cfg = \<lfloor>pageSize cfg * 1024 * 1024 / 4\<rfloor>"

text \<open>
  The page object that \<open>storeImage\<close> builds for the page number \<open>i\<close>; \<open>stamp\<close> is the
  reading of \<open>Date.now()\<close>. \<open>slice\<close> cuts off at the end of the buffer.
\<close>

definition newPage :: "config \<Rightarrow> imageData \<Rightarrow> nat \<Rightarrow> nat \<Rightarrow> page" where
  "newPage cfg img stamp i =
     (let ppp = nat (pixelsPerPage cfg);
          startPixel = i * ppp;
          endPixel = min ((i + 1) * ppp) (width img * height img);
          startIndex = startPixel * 4;
          endIndex = endPixel * 4;
          chunkData = take (endIndex - startIndex) (drop startIndex (imgdata img))
      in \<lparr> data = Some chunkData, status = Active, lastAccessed = stamp,
            startPixel = startPixel, endPixel = endPixel,
            startIndex = startIndex, endIndex = endIndex \<rparr>)"

text \<open>
  One round of the loop of \<open>storeImage\<close>, for the page number \<open>i\<close>. The table is
  cleared before the loop and every round adds one entry, so the key \<open>page_i\<close> is new
  when round \<open>i\<close> sets it, and the entry goes to the end.
\<close>

definition storePage :: "config \<Rightarrow> imageData \<Rightarrow> mm_state \<Rightarrow> nat \<Rightarrow> mm_state" where
  "storePage cfg img s i =
     (let p = newPage cfg img (dateNow cfg s) i;
          s1 = tick (s\<lparr>pageTable := pageTable s @ [p]\<rparr>);
          s2 = s1\<lparr>stats := (stats s1)\<lparr>
                 activePages := activePages (stats s1) + 1,
                 memoryUsage := dbl cfg (memoryUsage (stats s1) + pageSize cfg)\<rparr>\<rparr>
      in if memoryLimit cfg < memoryUsage (stats s2) then swapOutLRUPage cfg s2 else s2)"

text \<open>
  \<open>Math.ceil(totalPixels / pixelsPerPage)\<close>. Both operands are integers; for integers
  below \<open>2^53\<close> the rounded quotient lies on the same side of every integer as the exact
  one, so its ceiling is the ceiling of the exact quotient.
\<close>

definition pageCount :: "config \<Rightarrow> imageData \<Rightarrow> jsnum" where
  "pageCount cfg img =
     js_ceil (js_div exact (Fin (of_nat (width img * height img)))
                           (Fin (of_int (pixelsPerPage cfg))))"

text \<open>
  \<open>storeImage\<close>; the argument \<open>None\<close> is a falsy \<open>imageData\<close>. The result \<open>None\<close> is the
  loop that never ends: \<open>totalPages\<close> is \<open>Infinity\<close> when a page holds no pixel.
  With \<open>totalPages\<close> a number \<open>n\<close>, the loop runs for \<open>i = 0, ..., \<lceil>n\<rceil> - 1\<close>.
\<close>

definition storeImage :: "config \<Rightarrow> mm_state \<Rightarrow> imageData option \<Rightarrow> mm_state option" where
  "storeImage cfg s arg =
     (case arg of
        None \<Rightarrow> Some s
      | Some img \<Rightarrow>
          (let s1 = clearAllPages s;
               n = pageCount cfg img;
               s2 = s1\<lparr>stats := (stats s1)\<lparr>
                      totalWidth := Some (width img), totalHeight := Some (height img),
                      totalPixels := Some (width img * height img),
                      totalPages := Some n\<rparr>\<rparr>
           in (case n of
                 PInf \<Rightarrow> None
               | Fin q \<Rightarrow>
                   Some (updateMemoryStats (foldl (storePage cfg img) s2 [0..<nat \<lceil>q\<rceil>]))
               | _ \<Rightarrow> Some (updateMemoryStats s2))))"

section \<open>The image processor (setupImageProcessor)\<close>

subsection \<open>Channel arithmetic\<close>

definition clamp :: "jsnum \<Rightarrow> jsnum" where
  "clamp v = js_max (Fin 0) (js_min (Fin 255) (js_round v))"

text \<open>
  \<open>brightness / 100 * 255\<close> and \<open>data[i] + factor\<close>; the factor of the contrast, whose
  numerator and denominator are integers, and \<open>factor * (data[i] - 128) + 128\<close>, where
  the difference is one of integers; the average of three channels, whose sum is one of
  integers; the weighted sum of the sepia filter, whose weights are the doubles nearest
  to the decimals of the source; \<open>255 - data[i]\<close>, a difference of integers.
\<close>

definition brightnessFactor :: "rounding \<Rightarrow> int \<Rightarrow> jsnum" where
  "brightnessFactor rnd br = js_mul rnd (js_div rnd (Fin (of_int br)) (Fin 100)) (Fin 255)"

definition brighten :: "rounding \<Rightarrow> int \<Rightarrow> byte \<Rightarrow> byte" where
  "brighten rnd br d = toUint8Clamp (clamp (js_add rnd (num d) (brightnessFactor rnd br)))"

definition contrastDenominator :: "int \<Rightarrow> int" where
  "contrastDenominator c = 255 * (259 - c)"

definition contrastFactor :: "rounding \<Rightarrow> int \<Rightarrow> jsnum" where
  "contrastFactor rnd c =
     js_div rnd (Fin (of_int (259 * (c + 100)))) (Fin (of_int (contrastDenominator c)))"

definition contrastChannel :: "rounding \<Rightarrow> int \<Rightarrow> byte \<Rightarrow> byte" where
  "contrastChannel rnd c d =
     toUint8Clamp (clamp (js_add rnd (js_mul rnd (contrastFactor rnd c)
                                                 (js_add exact (num d) (Fin (- 128))))
                                     (Fin 128)))"

definition gray :: "rounding \<Rightarrow> byte \<Rightarrow> byte \<Rightarrow> byte \<Rightarrow> byte" where
  "gray rnd r g b =
     toUint8Clamp (js_div rnd (js_add exact (js_add exact (num r) (num g)) (num b)) (Fin 3))"

definition weighted :: "rounding \<Rightarrow> rat \<Rightarrow> rat \<Rightarrow> rat \<Rightarrow> byte \<Rightarrow> byte \<Rightarrow> byte \<Rightarrow> byte" where
  "weighted rnd kr kg kb r g b =
     toUint8Clamp (clamp (js_add rnd (js_add rnd (js_mul rnd (num r) (Fin (rnd kr)))
                                                 (js_mul rnd (num g) (Fin (rnd kg))))
                                     (js_mul rnd (num b) (Fin (rnd kb)))))"

definition invert :: "byte \<Rightarrow> byte" where
  "invert d = toUint8Clamp (js_add exact (Fin 255) (js_mul exact (Fin (- 1)) (num d)))"

subsection \<open>The loops over a chunk\<close>

text \<open>
  Each loop walks the array four bytes at a time and rewrites the three colour channels.
  When the length is no multiple of four, the last round reads \<open>undefined\<close> past the end
  (the sums are then \<open>NaN\<close>, stored as 0) and its writes past the end are dropped.
\<close>

fun applyBrightness :: "rounding \<Rightarrow> byte list \<Rightarrow> int \<Rightarrow> byte list" where
  "applyBrightness rnd (r # g # b # a # rest) br =
     brighten rnd br r # brighten rnd br g # brighten rnd br b # a # applyBrightness rnd rest br"
| "applyBrightness rnd xs br = map (brighten rnd br) xs"

fun applyContrast :: "rounding \<Rightarrow> byte list \<Rightarrow> int \<Rightarrow> byte list" where
  "applyContrast rnd (r # g # b # a # rest) c =
     contrastChannel rnd c r # contrastChannel rnd c g # contrastChannel rnd c b # a
       # applyContrast rnd rest c"
| "applyContrast rnd xs c = map (contrastChannel rnd c) xs"

fun applyGrayscale :: "rounding \<Rightarrow> byte list \<Rightarrow> byte list" where
  "applyGrayscale rnd (r # g # b # a # rest) =
     gray rnd r g b # gray rnd r g b # gray rnd r g b # a # applyGrayscale rnd rest"
| "applyGrayscale rnd [r, g, b] = [gray rnd r g b, gray rnd r g b, gray rnd r g b]"
| "applyGrayscale rnd xs = map (\<lambda>_. 0) xs"

fun applySepia :: "rounding \<Rightarrow> byte list \<Rightarrow> byte list" where
  "applySepia rnd (r # g # b # a # rest) =
     weighted rnd (393 / 1000) (769 / 1000) (189 / 1000) r g b #
     weighted rnd (349 / 1000) (686 / 1000) (168 / 1000) r g b #
     weighted rnd (272 / 1000) (534 / 1000) (131 / 1000) r g b # a # applySepia rnd rest"
| "applySepia rnd [r, g, b] =
     [weighted rnd (393 / 1000) (769 / 1000) (189 / 1000) r g b,
      weighted rnd (349 / 1000) (686 / 1000) (168 / 1000) r g b,
      weighted rnd (272 / 1000) (534 / 1000) (131 / 1000) r g b]"
| "applySepia rnd xs = map (\<lambda>_. 0) xs"

fun applyInvert :: "byte list \<Rightarrow> byte list" where
  "applyInvert (r # g # b # a # rest) = invert r # invert g # invert b # a # applyInvert rest"
| "applyInvert xs = map invert xs"

text \<open>
  \<open>processChunk\<close> as a function of the chunk's contents to the contents it returns;
  \<open>processChunk rnd\<close> is what the image processor registers with the memory manager.
\<close>

definition processChunk :: "rounding \<Rightarrow> chunkProcessor" where
  "processChunk rnd chunkData adj flt =
     (let d0 = chunkData;
          d1 = (if brightness adj \<noteq> 0 then applyBrightness rnd d0 (brightness adj) else d0);
          d2 = (if contrast adj \<noteq> 0 then applyContrast rnd d1 (contrast adj) else d1)
      in if flt = ''grayscale'' then applyGrayscale rnd d2
         else if flt = ''sepia'' then applySepia rnd d2
         else if flt = ''invert'' then applyInvert d2
         else d2)"

subsection \<open>The same on a store of arrays\<close>

text \<open>
  The five loops write into the array they are given, and \<open>processChunk\<close> hands them a copy.
  Here arrays live in a store, an array's address is its position, and
  \<open>new Uint8ClampedArray(...)\<close> takes the next free position.
\<close>

type_synonym store = "byte list list"

definition applyBrightness_st :: "rounding \<Rightarrow> store \<Rightarrow> nat \<Rightarrow> int \<Rightarrow> store" where
  "applyBrightness_st rnd h a br = h[a := applyBrightness rnd (h ! a) br]"

definition applyContrast_st :: "rounding \<Rightarrow> store \<Rightarrow> nat \<Rightarrow> int \<Rightarrow> store" where
  "applyContrast_st rnd h a c = h[a := applyContrast rnd (h ! a) c]"

definition applyGrayscale_st :: "rounding \<Rightarrow> store \<Rightarrow> nat \<Rightarrow> store" where
  "applyGrayscale_st rnd h a = h[a := applyGrayscale rnd (h ! a)]"

definition applySepia_st :: "rounding \<Rightarrow> store \<Rightarrow> nat \<Rightarrow> store" where
  "applySepia_st rnd h a = h[a := applySepia rnd (h ! a)]"

definition applyInvert_st :: "store \<Rightarrow> nat \<Rightarrow> store" where
  "applyInvert_st h a = h[a := applyInvert (h ! a)]"

definition processChunk_st ::
  "rounding \<Rightarrow> store \<Rightarrow> nat \<Rightarrow> adjustments \<Rightarrow> string \<Rightarrow> store \<times> nat" where
  "processChunk_st rnd h chunkData adj flt =
     (let processedData = length h;
          h0 = h @ [h ! chunkData];
          h1 = (if brightness adj \<noteq> 0
                then applyBrightness_st rnd h0 processedData (brightness adj) else h0);
          h2 = (if contrast adj \<noteq> 0
                then applyContrast_st rnd h1 processedData (contrast adj) else h1);
          h3 = (if flt = ''grayscale'' then applyGrayscale_st rnd h2 processedData
                else if flt = ''sepia'' then applySepia_st rnd h2 processedData
                else if flt = ''invert'' then applyInvert_st h2 processedData
                else h2)
      in (h3, processedData))"

section \<open>The transform run (processImageChunks)\<close>

subsection \<open>Writing a chunk into the output\<close>

text \<open>
  A write to a typed array at an index outside it is dropped; a read outside it is
  \<open>undefined\<close>, which is stored as 0.
\<close>

definition writeByte :: "byte list \<Rightarrow> int \<Rightarrow> byte \<Rightarrow> byte list" where
  "writeByte out i v = (if 0 \<le> i \<and> nat i < length out then out[nat i := v] else out)"

definition readByte :: "byte list \<Rightarrow> nat \<Rightarrow> byte" where
  "readByte xs i = (if i < length xs then xs ! i else 0)"

text \<open>
  The index in the output of the pixel that has the index \<open>pixelIndex\<close> in the image;
  \<open>None\<close> is the \<open>NaN\<close> of a zero \<open>width\<close>.
\<close>

definition rotatedIndex :: "nat \<Rightarrow> nat \<Rightarrow> int \<Rightarrow> nat \<Rightarrow> int option" where
  "rotatedIndex w h rotation pixelIndex =
     (if w = 0 then None
      else
        let x = int (pixelIndex mod w);
            y = int (pixelIndex div w);
            (newX, newY) =
               (if rotation = 90 then (int h - 1 - y, x)
                else if rotation = 180 then (int w - 1 - x, int h - 1 - y)
                else if rotation = 270 then (y, int w - 1 - x)
                else (x, y));
            newPixelIndex =
               (if rotation = 90 \<or> rotation = 270 then newY * int h + newX
                else newY * int w + newX)
        in Some (newPixelIndex * 4))"

definition copyPixel :: "byte list \<Rightarrow> page \<Rightarrow> nat \<Rightarrow> nat \<Rightarrow> int \<Rightarrow> byte list \<Rightarrow> nat \<Rightarrow> byte list" where
  "copyPixel chunkData p w h rotation outputData i =
     (case rotatedIndex w h rotation (startPixel p + i) of
        None \<Rightarrow> outputData
      | Some newIndex \<Rightarrow>
          let srcIndex = i * 4;
              o1 = writeByte outputData newIndex (readByte chunkData srcIndex);
              o2 = writeByte o1 (newIndex + 1) (readByte chunkData (srcIndex + 1));
              o3 = writeByte o2 (newIndex + 2) (readByte chunkData (srcIndex + 2))
          in writeByte o3 (newIndex + 3) (readByte chunkData (srcIndex + 3)))"

definition applyChunkToOutput ::
  "byte list \<Rightarrow> byte list \<Rightarrow> page \<Rightarrow> nat \<Rightarrow> nat \<Rightarrow> int \<Rightarrow> byte list" where
  "applyChunkToOutput chunkData outputData p w h rotation =
     (if rotation = 0
      then foldl (\<lambda>out i. writeByte out (int (startIndex p + i)) (chunkData ! i))
             outputData [0..<length chunkData]
      else foldl (copyPixel chunkData p w h rotation)
             outputData [0..<(length chunkData + 3) div 4])"

subsection \<open>The loop over the pages\<close>

definition countFault :: "mm_state \<Rightarrow> mm_state" where
  "countFault s = s\<lparr>stats := (stats s)\<lparr>pageFaults := pageFaults (stats s) + 1\<rparr>\<rparr>"

definition countHit :: "mm_state \<Rightarrow> mm_state" where
  "countHit s = s\<lparr>stats := (stats s)\<lparr>pageHits := pageHits (stats s) + 1\<rparr>\<rparr>"

text \<open>
  The first half of the loop's body: the page is swapped in or counted as a hit and,
  when it is there with data, its \<open>lastAccessed\<close> is set.
\<close>

definition acquire :: "config \<Rightarrow> mm_state \<Rightarrow> nat \<Rightarrow> mm_state" where
  "acquire cfg s pageId =
     (let s1 = (if \<not> has s pageId \<or> status (pageTable s ! pageId) = Inactive
                then countFault (swapInPage cfg s pageId)
                else countHit s)
      in case getPage s1 pageId of
           None \<Rightarrow> s1
         | Some p \<Rightarrow>
             (case data p of
                None \<Rightarrow> s1
              | Some d \<Rightarrow> tick (setPage pageId (p\<lparr>lastAccessed := dateNow cfg s1\<rparr>) s1)))"

text \<open>The whole body, for one page id; a page that is missing or has no data is skipped.\<close>

definition processPage ::
  "config \<Rightarrow> chunkProcessor \<Rightarrow> adjustments \<Rightarrow> string \<Rightarrow> int \<Rightarrow> nat \<Rightarrow> nat \<Rightarrow>
   mm_state \<times> byte list \<Rightarrow> nat \<Rightarrow> mm_state \<times> byte list" where
  "processPage cfg fn adj flt rotation w h acc pageId =
     (let s2 = acquire cfg (fst acc) pageId
      in case getPage s2 pageId of
           None \<Rightarrow> (s2, snd acc)
         | Some p \<Rightarrow>
             (case data p of
                None \<Rightarrow> (s2, snd acc)
              | Some d \<Rightarrow> (s2, applyChunkToOutput (fn d adj flt) (snd acc) p w h rotation)))"

definition processPages ::
  "config \<Rightarrow> chunkProcessor \<Rightarrow> adjustments \<Rightarrow> string \<Rightarrow> int \<Rightarrow> nat \<Rightarrow> nat \<Rightarrow>
   mm_state \<times> byte list \<Rightarrow> nat list \<Rightarrow> mm_state \<times> byte list" where
  "processPages cfg fn adj flt rotation w h acc pageIds =
     foldl (processPage cfg fn adj flt rotation w h) acc pageIds"

text \<open>The \<open>ImageData\<close> constructor throws when a side is zero.\<close>

datatype js_exception = IndexSizeError

definition processImageChunks ::
  "config \<Rightarrow> mm_state \<Rightarrow> imageData option \<Rightarrow> adjustments \<Rightarrow> string \<Rightarrow> int \<Rightarrow>
   mm_state \<times> (js_exception + imageData option)" where
  "processImageChunks cfg s originalImage adj flt rotation =
     (case originalImage of
        None \<Rightarrow> (s, Inr None)
      | Some img \<Rightarrow>
          (case processChunkFn s of
             None \<Rightarrow> (s, Inr (Some img))
           | Some fn \<Rightarrow>
               let newWidth = (if rotation mod 180 \<noteq> 0 then height img else width img);
                   newHeight = (if rotation mod 180 \<noteq> 0 then width img else height img);
                   outputData = replicate (newWidth * newHeight * 4) 0;
                   pageIds = [0..<length (pageTable s)];
                   r = processPages cfg fn adj flt rotation (width img) (height img)
                         (s, outputData) pageIds
               in if newWidth = 0 \<or> newHeight = 0 then (fst r, Inl IndexSizeError)
                  else (updateMemoryStats (fst r),
                        Inr (Some \<lparr> width = newWidth, height = newHeight, imgdata = snd r \<rparr>))))"

section \<open>Vocabulary of the properties\<close>

text \<open>
  What was sent out between a state and a later one, and the relation between the two that
  a page which was active and is not reported as swapped out in between is still active
  with the same data.
\<close>

definition newEvents :: "mm_state \<Rightarrow> mm_state \<Rightarrow> signal list" where
  "newEvents s s' = drop (length (events s)) (events s')"

definition keeps :: "mm_state \<Rightarrow> mm_state \<Rightarrow> bool" where
  "keeps s s' \<longleftrightarrow>
     length (pageTable s') = length (pageTable s)
     \<and> take (length (events s)) (events s') = events s
     \<and> (\<forall>i < length (pageTable s).
          status (pageTable s ! i) = Active \<and> SwappedOut i \<notin> set (newEvents s s')
          \<longrightarrow> status (pageTable s' ! i) = Active \<and> data (pageTable s' ! i) = data (pageTable s ! i))"

text \<open>
  The closed form of the loop of \<open>storeImage\<close>: a page with its flag and data taken away;
  the value of \<open>stats.memoryUsage\<close> after \<open>n\<close> rounds, which every round increases by the
  page size and, when the sum is then above the limit, decreases again for the page that
  is swapped out; the number of rounds among the first \<open>n\<close> in which the sum was above
  the limit; the page \<open>i\<close> when the first \<open>k\<close> pages have been swapped out; and the state
  after \<open>n\<close> rounds that started in \<open>s0\<close>.
\<close>

definition evicted :: "page \<Rightarrow> page" where
  "evicted p = p\<lparr>status := Inactive, data := None\<rparr>"

fun usageAfter :: "config \<Rightarrow> nat \<Rightarrow> rat" where
  "usageAfter cfg 0 = 0"
| "usageAfter cfg (Suc n) =
     (let u = dbl cfg (usageAfter cfg n + pageSize cfg)
      in if memoryLimit cfg < u then dbl cfg (u - pageSize cfg) else u)"

fun evictions :: "config \<Rightarrow> nat \<Rightarrow> nat" where
  "evictions cfg 0 = 0"
| "evictions cfg (Suc n) =
     (if memoryLimit cfg < dbl cfg (usageAfter cfg n + pageSize cfg)
      then Suc (evictions cfg n) else evictions cfg n)"

definition pageAt :: "config \<Rightarrow> imageData \<Rightarrow> nat \<Rightarrow> nat \<Rightarrow> nat \<Rightarrow> page" where
  "pageAt cfg img t0 k i =
     (if i < k then evicted (newPage cfg img (clock cfg (t0 + i)) i)
      else newPage cfg img (clock cfg (t0 + i)) i)"

definition storedState :: "config \<Rightarrow> imageData \<Rightarrow> mm_state \<Rightarrow> nat \<Rightarrow> mm_state" where
  "storedState cfg img s0 n =
     (let k = evictions cfg n
      in s0\<lparr> pageTable := map (pageAt cfg img (ticks s0) k) [0..<n],
             stats := (stats s0)\<lparr> activePages := int n - int k, inactivePages := int k,
                                   memoryUsage := usageAfter cfg n \<rparr>,
             events := events s0 @ map SwappedOut [0..<k],
             ticks := ticks s0 + n \<rparr>)"

text \<open>
  The number of pages of an image when a page holds at least one pixel; the number of
  pages that fit the budget, and the configurations in which the memory usage of up to
  \<open>n\<close> pages is computed without rounding (every multiple of the page size up to the
  \<open>n\<close>-fold is a double; so it is when the page size is a power of two, as the default
  is); the state with which the loop of \<open>storeImage\<close> starts, and what every state of
  the loop looks like whatever the clock does.
\<close>

definition numPages :: "config \<Rightarrow> imageData \<Rightarrow> nat" where
  "numPages cfg img = nat \<lceil>of_nat (width img * height img) / of_int (pixelsPerPage cfg) :: rat\<rceil>"

definition capacity :: "config \<Rightarrow> nat" where
  "capacity cfg = nat \<lfloor>memoryLimit cfg / pageSize cfg\<rfloor>"

definition exactSums :: "config \<Rightarrow> nat \<Rightarrow> bool" where
  "exactSums cfg n \<longleftrightarrow>
     (\<forall>r \<le> n. dbl cfg (of_nat r * pageSize cfg) = of_nat r * pageSize cfg)"

definition storeBase :: "config \<Rightarrow> imageData \<Rightarrow> mm_state \<Rightarrow> mm_state" where
  "storeBase cfg img s =
     (let s1 = clearAllPages s
      in s1\<lparr>stats := (stats s1)\<lparr>
             totalWidth := Some (width img), totalHeight := Some (height img),
             totalPixels := Some (width img * height img),
             totalPages := Some (pageCount cfg img)\<rparr>\<rparr>)"

definition shaped :: "config \<Rightarrow> imageData \<Rightarrow> mm_state \<Rightarrow> bool" where
  "shaped cfg img s \<longleftrightarrow>
     pageHits (stats s) = 0 \<and> pageFaults (stats s) = 0
     \<and> (\<forall>i < length (pageTable s).
          \<exists>stamp. pageTable s ! i = newPage cfg img stamp i
                \<or> pageTable s ! i = evicted (newPage cfg img stamp i))"

text \<open>
  The states in which the pages reported as swapped out since the event number \<open>e0\<close> are
  the pages of the table that are inactive.
\<close>

definition reported :: "nat \<Rightarrow> mm_state \<Rightarrow> bool" where
  "reported e0 s \<longleftrightarrow>
     e0 \<le> length (events s)
     \<and> (\<forall>i. SwappedOut i \<in> set (drop e0 (events s))
            \<longleftrightarrow> i < length (pageTable s) \<and> status (pageTable s ! i) = Inactive)"

text \<open>The first half of the loop's body for a sequence of page ids, one after the other.\<close>

definition acquireAll :: "config \<Rightarrow> mm_state \<Rightarrow> nat list \<Rightarrow> mm_state" where
  "acquireAll cfg s pageIds = foldl (acquire cfg) s pageIds"

text \<open>
  A page without its time stamp; the states in which the table holds every page of the
  image, active and with its slice of the buffer; the request that changes nothing.
\<close>

definition untimed :: "page \<Rightarrow> page" where
  "untimed p = p\<lparr>lastAccessed := 0\<rparr>"

definition resident :: "config \<Rightarrow> imageData \<Rightarrow> mm_state \<Rightarrow> bool" where
  "resident cfg img s \<longleftrightarrow>
     map untimed (pageTable s) = map (newPage cfg img 0) [0..<numPages cfg img]"

definition identityAdjustments :: adjustments where
  "identityAdjustments = \<lparr> brightness = 0, contrast = 0 \<rparr>"

text \<open>
  Where the rotation by 90 degrees puts the pixel with the index \<open>p\<close> of an image that is
  \<open>w\<close> wide and \<open>h\<close> high: the pixel \<open>(x, y)\<close> goes to \<open>(h - 1 - y, x)\<close> in an image that
  is \<open>h\<close> wide. \<open>rotatePages\<close> is the output of \<open>processImageChunks\<close> when every page of
  the image is there with its data and nothing is adjusted: the pages, as \<open>storeImage\<close>
  cuts them, are written into the output one after the other.
\<close>

definition rot90 :: "nat \<Rightarrow> nat \<Rightarrow> nat \<Rightarrow> nat" where
  "rot90 w h p = (p mod w) * h + (h - 1 - p div w)"

definition rotatePages :: "config \<Rightarrow> imageData \<Rightarrow> int \<Rightarrow> imageData" where
  "rotatePages cfg img rotation =
     (let newWidth = (if rotation mod 180 \<noteq> 0 then height img else width img);
          newHeight = (if rotation mod 180 \<noteq> 0 then width img else height img);
          outputData = replicate (newWidth * newHeight * 4) 0
      in \<lparr> width = newWidth, height = newHeight,
            imgdata = foldl (\<lambda>acc i. applyChunkToOutput (the (data (newPage cfg img 0 i))) acc
                                      (newPage cfg img 0 i) (width img) (height img) rotation)
                        outputData [0..<numPages cfg img] \<rparr>)"

section \<open>Example values\<close>

text \<open>
  A manager whose page holds exactly one pixel (four bytes), with a budget of \<open>budget\<close>
  pages and a clock that advances at every reading; an image of four pixels in one row;
  the manager after the image processor has registered \<open>processChunk\<close>. The page size
  is a power of two and the examples store a handful of pages, so every memory usage
  that occurs is a double and the rounding leaves it as it is; the same holds for the
  channel values of the examples.
\<close>

definition unitConfig :: "rat \<Rightarrow> config" where
  "unitConfig budget =
     \<lparr> memoryLimit = budget / 262144, pageSize = 1 / 262144, clock = (\<lambda>k. k),
       dbl = exact \<rparr>"

definition strip4 :: imageData where
  "strip4 = \<lparr> width = 4, height = 1,
     imgdata = [1, 2, 3, 4, 5, 6, 7, 8, 9, 10, 11, 12, 13, 14, 15, 16] \<rparr>"

definition readyState :: mm_state where
  "readyState = registerChunkProcessor initialState (processChunk exact)"

text \<open>The manager after \<open>strip4\<close> has been stored under a budget of \<open>budget\<close> pages.\<close>

definition stored4 :: "rat \<Rightarrow> mm_state" where
  "stored4 budget = the (storeImage (unitConfig budget) readyState (Some strip4))"

text \<open>
  The same manager with every page swapped out and nothing in use: no page has been
  acquired yet.
\<close>

definition cold4 :: "rat \<Rightarrow> mm_state" where
  "cold4 budget =
     (stored4 budget)\<lparr> pageTable := map evicted (pageTable (stored4 budget)),
         stats := (stats (stored4 budget))\<lparr> activePages := 0, inactivePages := 4,
                                            memoryUsage := 0 \<rparr> \<rparr>"

text \<open>A buffer of four bytes declared as two pixels wide: half as long as its sides say.\<close>

definition shortImage :: imageData where
  "shortImage = \<lparr> width = 2, height = 1, imgdata = [1, 2, 3, 4] \<rparr>"

text \<open>
  An image that is three pixels wide and two high, and the manager after it has been
  stored with a page per pixel under a budget of six pages.
\<close>

definition grid32 :: imageData where
  "grid32 = \<lparr> width = 3, height = 2,
     imgdata = [10, 11, 12, 13, 20, 21, 22, 23, 30, 31, 32, 33,
                40, 41, 42, 43, 50, 51, 52, 53, 60, 61, 62, 63] \<rparr>"

definition storedGrid :: mm_state where
  "storedGrid = the (storeImage (unitConfig 6) readyState (Some grid32))"

section \<open>Properties\<close>

subsection \<open>Eviction touches one resident page\<close>

lemma lruScan_result:
  "lruScan es t l0 = Some l \<Longrightarrow> l0 = Some l \<or> (\<exists>p. (l, p) \<in> set es \<and> status p = Active)"
  by (induction es t l0 rule: lruScan.induct) (auto split: if_splits)

lemma entries_mem:
  "(l, p) \<in> set (entries s) \<longleftrightarrow> l < length (pageTable s) \<and> p = pageTable s ! l"
  unfolding entries_def by (force simp: in_set_zip)

lemma findLRU_active:
  "findLRU s = Some l \<Longrightarrow> l < length (pageTable s) \<and> status (pageTable s ! l) = Active"
  unfolding findLRU_def by (drule lruScan_result) (auto simp: entries_mem)

lemma swapOut_length [simp]:
  "length (pageTable (swapOutLRUPage cfg s)) = length (pageTable s)"
  by (simp add: swapOutLRUPage_def emit_def setPage_def Let_def split: option.splits)

lemma swapOut_ticks [simp]: "ticks (swapOutLRUPage cfg s) = ticks s"
  by (simp add: swapOutLRUPage_def emit_def setPage_def Let_def split: option.splits)

lemma swapOut_fn [simp]: "processChunkFn (swapOutLRUPage cfg s) = processChunkFn s"
  by (simp add: swapOutLRUPage_def emit_def setPage_def Let_def split: option.splits)

lemma swapOut_hits [simp]: "pageHits (stats (swapOutLRUPage cfg s)) = pageHits (stats s)"
  by (simp add: swapOutLRUPage_def emit_def setPage_def Let_def split: option.splits)

lemma swapOut_faults [simp]: "pageFaults (stats (swapOutLRUPage cfg s)) = pageFaults (stats s)"
  by (simp add: swapOutLRUPage_def emit_def setPage_def Let_def split: option.splits)

lemma swapOut_inactive_same:
  "status (pageTable s ! i) = Inactive \<Longrightarrow> pageTable (swapOutLRUPage cfg s) ! i = pageTable s ! i"
proof (cases "findLRU s")
  case None
  then show ?thesis by (simp add: swapOutLRUPage_def)
next
  case (Some l)
  assume "status (pageTable s ! i) = Inactive"
  with findLRU_active[OF Some] have "l \<noteq> i" by auto
  then show ?thesis
    using Some by (simp add: swapOutLRUPage_def emit_def setPage_def Let_def)
qed

subsection \<open>Reloading an evicted page\<close>

text \<open>
  C1. When \<open>swapInPage\<close> is called for a page that is in the table and inactive, the page's
  data afterwards is a buffer of zeros whose length is \<open>endIndex - startIndex\<close> of the page,
  whatever bytes the page held when it was stored; the page is active, its
  \<open>lastAccessed\<close> is the reading of the clock at that moment, and the last thing sent out
  is the swapped-in event for this page.
\<close>

theorem swapInPage_evicted:
  assumes "getPage s pageId = Some p" and "status p = Inactive"
  shows "\<exists>p'. getPage (swapInPage cfg s pageId) pageId = Some p'
           \<and> data p' = Some (replicate (endIndex p - startIndex p) 0)
           \<and> length (the (data p')) = endIndex p - startIndex p
           \<and> status p' = Active
           \<and> lastAccessed p' = clock cfg (ticks s)
           \<and> last (events (swapInPage cfg s pageId)) = SwappedIn pageId"
proof -
  define s1 where "s1 = (if memoryLimit cfg < dbl cfg (memoryUsage (stats s) + pageSize cfg)
                then swapOutLRUPage cfg s else s)"
  from assms have lt: "pageId < length (pageTable s)" and p: "p = pageTable s ! pageId"
    by (auto simp: getPage_def split: if_splits)
  have g1: "getPage s1 pageId = Some p"
    using lt p assms(2) by (simp add: s1_def getPage_def swapOut_inactive_same)
  have t1: "ticks s1 = ticks s" by (simp add: s1_def)
  have lt1: "pageId < length (pageTable s1)" using lt by (simp add: s1_def)
  show ?thesis
    unfolding swapInPage_def s1_def[symmetric] Let_def
    using g1 assms(2) t1 lt1
    by (simp add: getPage_def setPage_def tick_def emit_def dateNow_def)
qed

text \<open>
  Page 0 of \<open>strip4\<close> held the bytes 1, 2, 3, 4 and was evicted while the image was stored
  under a budget of two pages; it comes back as four zeros.
\<close>

theorem swapInPage_evicted_witness:
  "getPage (stored4 2) 0 = Some (pageTable (stored4 2) ! 0)
   \<and> status (pageTable (stored4 2) ! 0) = Inactive
   \<and> take 4 (imgdata strip4) = [1, 2, 3, 4]
   \<and> data (pageTable (swapInPage (unitConfig 2) (stored4 2) 0) ! 0) = Some [0, 0, 0, 0]
   \<and> status (pageTable (swapInPage (unitConfig 2) (stored4 2) 0) ! 0) = Active
   \<and> last (events (swapInPage (unitConfig 2) (stored4 2) 0)) = SwappedIn 0"
proof -
  have h1: "getPage (stored4 2) 0 = Some (pageTable (stored4 2) ! 0)" by code_simp
  have h2: "status (pageTable (stored4 2) ! 0) = Inactive" by code_simp
  have h3: "endIndex (pageTable (stored4 2) ! 0) - startIndex (pageTable (stored4 2) ! 0) = 4"
    by code_simp
  have h4: "take 4 (imgdata strip4) = [1, 2, 3, 4]" by code_simp
  have h5: "0 < length (pageTable (swapInPage (unitConfig 2) (stored4 2) 0))" by code_simp
  from swapInPage_evicted[OF h1 h2, of "unitConfig 2"] obtain p' where
    p': "getPage (swapInPage (unitConfig 2) (stored4 2) 0) 0 = Some p'"
      "data p' = Some (replicate (endIndex (pageTable (stored4 2) ! 0)
                                  - startIndex (pageTable (stored4 2) ! 0)) 0)"
      "status p' = Active"
      "last (events (swapInPage (unitConfig 2) (stored4 2) 0)) = SwappedIn 0"
    by blast
  from p'(1) h5 have "p' = pageTable (swapInPage (unitConfig 2) (stored4 2) 0) ! 0"
    by (simp add: getPage_def)
  with p' h3 have
    "data (pageTable (swapInPage (unitConfig 2) (stored4 2) 0) ! 0) = Some [0, 0, 0, 0]"
    "status (pageTable (swapInPage (unitConfig 2) (stored4 2) 0) ! 0) = Active"
    by (simp_all add: numeral_eq_Suc)
  with h1 h2 h4 p'(4) show ?thesis by simp
qed

subsection \<open>Hits and faults\<close>

lemma swapIn_hits [simp]: "pageHits (stats (swapInPage cfg s pageId)) = pageHits (stats s)"
  by (simp add: swapInPage_def emit_def setPage_def tick_def Let_def split: option.splits)

lemma swapIn_faults [simp]: "pageFaults (stats (swapInPage cfg s pageId)) = pageFaults (stats s)"
  by (simp add: swapInPage_def emit_def setPage_def tick_def Let_def split: option.splits)

lemma acquire_hits:
  "pageHits (stats (acquire cfg s pageId)) =
     (if \<not> has s pageId \<or> status (pageTable s ! pageId) = Inactive
      then pageHits (stats s) else pageHits (stats s) + 1)"
  by (simp add: acquire_def countFault_def countHit_def setPage_def tick_def Let_def
      split: option.splits)

lemma acquire_faults:
  "pageFaults (stats (acquire cfg s pageId)) =
     (if \<not> has s pageId \<or> status (pageTable s ! pageId) = Inactive
      then pageFaults (stats s) + 1 else pageFaults (stats s))"
  by (simp add: acquire_def countFault_def countHit_def setPage_def tick_def Let_def
      split: option.splits)

lemma fst_processPage: "fst (processPage cfg fn adj flt rotation w h acc pageId) = acquire cfg (fst acc) pageId"
  by (simp add: processPage_def Let_def split: option.splits)

text \<open>
  C5. In the body of the loop of a transform run, for a page id that is in the table:
  when the page is active, the fault counter is unchanged and the hit counter grows by
  one; when it is inactive, the fault counter grows by exactly one and the hit counter is
  unchanged.
\<close>

theorem acquire_accounting:
  assumes "getPage s pageId = Some p"
  shows "pageFaults (stats (fst (processPage cfg fn adj flt rotation w h (s, out) pageId)))
           = pageFaults (stats s) + (if status p = Inactive then 1 else 0)
       \<and> pageHits (stats (fst (processPage cfg fn adj flt rotation w h (s, out) pageId)))
           = pageHits (stats s) + (if status p = Active then 1 else 0)"
proof -
  from assms have "has s pageId" and "p = pageTable s ! pageId"
    by (auto simp: getPage_def has_def split: if_splits)
  then show ?thesis
    by (cases "status p") (simp_all add: fst_processPage acquire_hits acquire_faults)
qed

theorem acquire_accounting_witness:
  "getPage (stored4 2) 0 = Some (pageTable (stored4 2) ! 0)
   \<and> status (pageTable (stored4 2) ! 0) = Inactive
   \<and> pageFaults (stats (fst (processPage (unitConfig 2) (processChunk exact)
         \<lparr>brightness = 0, contrast = 0\<rparr> ''none'' 0 4 1 (stored4 2, replicate 16 0) 0)))
       = pageFaults (stats (stored4 2)) + 1
   \<and> pageHits (stats (fst (processPage (unitConfig 2) (processChunk exact)
         \<lparr>brightness = 0, contrast = 0\<rparr> ''none'' 0 4 1 (stored4 2, replicate 16 0) 0)))
       = pageHits (stats (stored4 2))
   \<and> getPage (stored4 2) 2 = Some (pageTable (stored4 2) ! 2)
   \<and> status (pageTable (stored4 2) ! 2) = Active
   \<and> pageFaults (stats (fst (processPage (unitConfig 2) (processChunk exact)
         \<lparr>brightness = 0, contrast = 0\<rparr> ''none'' 0 4 1 (stored4 2, replicate 16 0) 2)))
       = pageFaults (stats (stored4 2))
   \<and> pageHits (stats (fst (processPage (unitConfig 2) (processChunk exact)
         \<lparr>brightness = 0, contrast = 0\<rparr> ''none'' 0 4 1 (stored4 2, replicate 16 0) 2)))
       = pageHits (stats (stored4 2)) + 1"
proof -
  have h0: "getPage (stored4 2) 0 = Some (pageTable (stored4 2) ! 0)" by code_simp
  have i0: "status (pageTable (stored4 2) ! 0) = Inactive" by code_simp
  have h2: "getPage (stored4 2) 2 = Some (pageTable (stored4 2) ! 2)" by code_simp
  have a2: "status (pageTable (stored4 2) ! 2) = Active" by code_simp
  show ?thesis
    using acquire_accounting[OF h0, of "unitConfig 2" "processChunk exact"
        "\<lparr>brightness = 0, contrast = 0\<rparr>" "''none''" 0 4 1 "replicate 16 0"]
      acquire_accounting[OF h2, of "unitConfig 2" "processChunk exact"
        "\<lparr>brightness = 0, contrast = 0\<rparr>" "''none''" 0 4 1 "replicate 16 0"]
      h0 i0 h2 a2
    by simp
qed

subsection \<open>The contrast factor\<close>

lemma length_applyBrightness [simp]: "length (applyBrightness rnd xs br) = length xs"
  by (induction rnd xs br rule: applyBrightness.induct) simp_all

lemma length_applyContrast [simp]: "length (applyContrast rnd xs c) = length xs"
  by (induction rnd xs c rule: applyContrast.induct) simp_all

lemma length_applyGrayscale [simp]: "length (applyGrayscale rnd xs) = length xs"
  by (induction rnd xs rule: applyGrayscale.induct) simp_all

lemma length_applySepia [simp]: "length (applySepia rnd xs) = length xs"
  by (induction rnd xs rule: applySepia.induct) simp_all

lemma length_applyInvert [simp]: "length (applyInvert xs) = length xs"
  by (induction xs rule: applyInvert.induct) simp_all

lemma length_processChunk [simp]: "length (processChunk rnd chunkData adj flt) = length chunkData"
  by (simp add: processChunk_def Let_def)

lemma contrastFactor_259: "contrastFactor rnd 259 = PInf"
  by (simp add: contrastFactor_def contrastDenominator_def)

lemma contrastChannel_259: "contrastChannel rnd 259 d = (if 128 < d then 255 else 0)"
proof -
  have u: "(128 < d) = (128 < uint d)" by (simp add: word_less_alt)
  consider "uint d < 128" | "uint d = 128" | "128 < uint d" by linarith
  then show ?thesis
    by cases (simp_all add: contrastChannel_def contrastFactor_259 num_def clamp_def exact_def u
        del: of_int_uint)
qed

lemma applyContrast_nth:
  "i < length xs \<Longrightarrow>
   applyContrast rnd xs c ! i = (if i mod 4 = 3 then xs ! i else contrastChannel rnd c (xs ! i))"
proof (induction rnd xs c arbitrary: i rule: applyContrast.induct)
  case (1 rnd r g b a rest c)
  show ?case
  proof (cases "i < 4")
    case True
    then consider "i = 0" | "i = 1" | "i = 2" | "i = 3" by linarith
    then show ?thesis by cases simp_all
  next
    case False
    then obtain j where j: "i = 4 + j" using le_Suc_ex[of 4 i] by auto
    with "1.prems" have "j < length rest" by simp
    from "1.IH"[OF this] show ?thesis
      by (simp add: j nth_Cons' mod_add_self1)
  qed
qed (auto simp: nth_Cons' less_Suc_eq)

text \<open>
  With a contrast of 259 nothing is rejected: the denominator is zero, the quotient is
  \<open>Infinity\<close>, and \<open>processChunk\<close> returns a buffer in which the channels above 128 are
  255 and the others 0.
\<close>

theorem contrast_259_counterexample:
  "contrastDenominator 259 = 0
   \<and> contrastFactor exact 259 = PInf
   \<and> processChunk exact [200, 100, 128, 255] \<lparr>brightness = 0, contrast = 259\<rparr> ''none''
       = [255, 0, 0, 255]"
  by (simp add: contrastFactor_259 contrastDenominator_def processChunk_def contrastChannel_259)

text \<open>
  C7, as the code has it. The denominator \<open>255 * (259 - c)\<close> is zero exactly at \<open>c = 259\<close>;
  for every contrast in the documented range from -100 to 100 it is positive and the
  factor is the finite quotient, so in that range the formula is never evaluated at its
  singular point. A contrast of 259 is not rejected: the division by zero is evaluated to
  \<open>Infinity\<close>, and \<open>processChunk\<close> returns a buffer of the length of its input whatever
  the brightness and the filter are. With a brightness of 0 and the filter \<open>none\<close> the
  buffer it returns has, at every position of a colour channel, 255 where the input is
  above 128 and 0 elsewhere, and at every position of an alpha channel (the fourth byte
  of each pixel) the byte of the input.
\<close>

theorem contrast_singular_point:
  "(contrastDenominator c = 0 \<longleftrightarrow> c = 259)
   \<and> (- 100 \<le> c \<and> c \<le> 100 \<longrightarrow>
        0 < contrastDenominator c
        \<and> contrastFactor rnd c
            = Fin (rnd (of_int (259 * (c + 100)) / of_int (contrastDenominator c))))
   \<and> contrastFactor rnd 259 = PInf
   \<and> length (processChunk rnd chunkData \<lparr>brightness = b, contrast = 259\<rparr> flt) = length chunkData
   \<and> (\<forall>i < length chunkData.
        processChunk rnd chunkData \<lparr>brightness = 0, contrast = 259\<rparr> ''none'' ! i
          = (if i mod 4 = 3 then chunkData ! i
             else if 128 < chunkData ! i then 255 else 0))"
proof -
  have d: "contrastDenominator c = 0 \<longleftrightarrow> c = 259"
    by (simp add: contrastDenominator_def)
  have r: "- 100 \<le> c \<and> c \<le> 100 \<longrightarrow>
        0 < contrastDenominator c
        \<and> contrastFactor rnd c
            = Fin (rnd (of_int (259 * (c + 100)) / of_int (contrastDenominator c)))"
    by (auto simp: contrastDenominator_def contrastFactor_def)
  have p: "processChunk rnd chunkData \<lparr>brightness = 0, contrast = 259\<rparr> ''none''
      = applyContrast rnd chunkData 259"
    by (simp add: processChunk_def)
  have n: "\<forall>i < length chunkData.
        processChunk rnd chunkData \<lparr>brightness = 0, contrast = 259\<rparr> ''none'' ! i
          = (if i mod 4 = 3 then chunkData ! i
             else if 128 < chunkData ! i then 255 else 0)"
    unfolding p by (simp add: applyContrast_nth contrastChannel_259)
  from d r n show ?thesis by (simp add: contrastFactor_259)
qed

text \<open>
  The lowest contrast of the documented range, where the factor is 0, and a buffer of
  two pixels with a contrast of 259.
\<close>

theorem contrast_singular_point_witness:
  "- 100 \<le> (- 100::int) \<and> (- 100::int) \<le> 100
   \<and> 0 < contrastDenominator (- 100)
   \<and> contrastFactor exact (- 100) = Fin 0
   \<and> length [200, 100, 128, 255, 129, 0, 255, 7 :: byte] = 8
   \<and> map (\<lambda>i. processChunk exact [200, 100, 128, 255, 129, 0, 255, 7]
                 \<lparr>brightness = 0, contrast = 259\<rparr> ''none'' ! i) [0, 1, 2, 3, 4, 5, 6, 7]
       = [255, 0, 0, 255, 255, 0, 255, 7]"
proof -
  note t = contrast_singular_point[of "- 100" exact "[200, 100, 128, 255, 129, 0, 255, 7]" 0
      "''none''"]
  from t have r: "0 < contrastDenominator (- 100)"
    and f: "contrastFactor exact (- 100) = Fin 0"
    by (simp_all add: exact_def)
  from t have n: "\<forall>i < 8.
        processChunk exact [200, 100, 128, 255, 129, 0, 255, 7]
            \<lparr>brightness = 0, contrast = 259\<rparr> ''none'' ! i
          = (if i mod 4 = 3 then [200, 100, 128, 255, 129, 0, 255, 7 :: byte] ! i
             else if 128 < [200, 100, 128, 255, 129, 0, 255, 7 :: byte] ! i then 255 else 0)"
    by simp
  have "processChunk exact [200, 100, 128, 255, 129, 0, 255, 7]
            \<lparr>brightness = 0, contrast = 259\<rparr> ''none'' ! 0 = 255"
    and "processChunk exact [200, 100, 128, 255, 129, 0, 255, 7]
            \<lparr>brightness = 0, contrast = 259\<rparr> ''none'' ! 1 = 0"
    and "processChunk exact [200, 100, 128, 255, 129, 0, 255, 7]
            \<lparr>brightness = 0, contrast = 259\<rparr> ''none'' ! 2 = 0"
    and "processChunk exact [200, 100, 128, 255, 129, 0, 255, 7]
            \<lparr>brightness = 0, contrast = 259\<rparr> ''none'' ! 3 = 255"
    and "processChunk exact [200, 100, 128, 255, 129, 0, 255, 7]
            \<lparr>brightness = 0, contrast = 259\<rparr> ''none'' ! 4 = 255"
    and "processChunk exact [200, 100, 128, 255, 129, 0, 255, 7]
            \<lparr>brightness = 0, contrast = 259\<rparr> ''none'' ! 5 = 0"
    and "processChunk exact [200, 100, 128, 255, 129, 0, 255, 7]
            \<lparr>brightness = 0, contrast = 259\<rparr> ''none'' ! 6 = 255"
    and "processChunk exact [200, 100, 128, 255, 129, 0, 255, 7]
            \<lparr>brightness = 0, contrast = 259\<rparr> ''none'' ! 7 = 7"
    using n[rule_format, of 0] n[rule_format, of 1] n[rule_format, of 2] n[rule_format, of 3]
      n[rule_format, of 4] n[rule_format, of 5] n[rule_format, of 6] n[rule_format, of 7]
    by simp_all
  with r f show ?thesis by simp
qed

subsection \<open>A page id that is not in the table\<close>

lemma emit_length [simp]: "length (pageTable (emit e s)) = length (pageTable s)"
  by (simp add: emit_def)

text \<open>
  The id 7 is not in the table of the four pages of \<open>strip4\<close>. When the loop meets it
  (the ids are read before the loop starts, and the table can be rebuilt while the loop
  waits for a page), it goes on to page 0 and writes it; the only thing sent out is the
  console line.
\<close>

theorem unknown_page_counterexample:
  "\<not> has (stored4 5) 7
   \<and> snd (processPages (unitConfig 5) (processChunk exact) \<lparr>brightness = 0, contrast = 0\<rparr> ''none'' 0 4 1
            (stored4 5, replicate 16 0) [7, 0])
       = [1, 2, 3, 4, 0, 0, 0, 0, 0, 0, 0, 0, 0, 0, 0, 0]
   \<and> drop (length (events (stored4 5)))
        (events (fst (processPages (unitConfig 5) (processChunk exact) \<lparr>brightness = 0, contrast = 0\<rparr>
            ''none'' 0 4 1 (stored4 5, replicate 16 0) [7, 0])))
       = [ConsoleError 7]"
  by code_simp

text \<open>
  C9, as the code has it. When the page id is not in the table, the body of the loop
  (after \<open>swapInPage\<close> has made room as for any other page) writes the console line, counts
  a fault and leaves the output buffer as it is; the loop then goes on with the
  remaining ids. No error event is sent and the run is not aborted.
\<close>

theorem unknown_page_skipped:
  assumes "\<not> has s pageId"
  shows "processPage cfg fn adj flt rotation w h (s, out) pageId
           = (countFault (emit (ConsoleError pageId)
                (if memoryLimit cfg < dbl cfg (memoryUsage (stats s) + pageSize cfg)
                 then swapOutLRUPage cfg s else s)), out)
       \<and> processPages cfg fn adj flt rotation w h (s, out) (pageId # rest)
           = processPages cfg fn adj flt rotation w h
               (countFault (emit (ConsoleError pageId)
                  (if memoryLimit cfg < dbl cfg (memoryUsage (stats s) + pageSize cfg)
                   then swapOutLRUPage cfg s else s)), out) rest"
proof -
  define s1 where "s1 = (if memoryLimit cfg < dbl cfg (memoryUsage (stats s) + pageSize cfg)
                 then swapOutLRUPage cfg s else s)"
  have len: "length (pageTable s1) = length (pageTable s)" by (simp add: s1_def)
  with assms have g: "getPage s1 pageId = None" by (simp add: getPage_def has_def)
  have sw: "swapInPage cfg s pageId = emit (ConsoleError pageId) s1"
    unfolding swapInPage_def s1_def[symmetric] Let_def using g by simp
  have g2: "getPage (countFault (emit (ConsoleError pageId) s1)) pageId = None"
    using assms len by (simp add: getPage_def has_def countFault_def)
  have acq: "acquire cfg s pageId = countFault (emit (ConsoleError pageId) s1)"
    unfolding acquire_def Let_def using assms g2 by (simp add: sw)
  have pp: "processPage cfg fn adj flt rotation w h (s, out) pageId
      = (countFault (emit (ConsoleError pageId) s1), out)"
    unfolding processPage_def Let_def using g2 by (simp add: acq)
  show ?thesis
    unfolding s1_def[symmetric] using pp by (simp add: processPages_def)
qed

theorem unknown_page_skipped_witness:
  "\<not> has (stored4 4) 7
   \<and> processPage (unitConfig 4) (processChunk exact) \<lparr>brightness = 0, contrast = 0\<rparr> ''none'' 0 4 1
        (stored4 4, replicate 16 0) 7
      = (countFault (emit (ConsoleError 7) (swapOutLRUPage (unitConfig 4) (stored4 4))),
         replicate 16 0)"
proof -
  have h: "\<not> has (stored4 4) 7" by code_simp
  have m: "memoryLimit (unitConfig 4)
      < dbl (unitConfig 4) (memoryUsage (stats (stored4 4)) + pageSize (unitConfig 4))"
    by code_simp
  show ?thesis
    using unknown_page_skipped[OF h, of "unitConfig 4" "processChunk exact"
        "\<lparr>brightness = 0, contrast = 0\<rparr>" "''none''" 0 4 1 "replicate 16 0" "[]"] h m
    by simp
qed

subsection \<open>The arrays of processChunk\<close>

lemma st_lengths [simp]:
  "length (applyBrightness_st rnd h a br) = length h"
  "length (applyContrast_st rnd h a c) = length h"
  "length (applyGrayscale_st rnd h a) = length h"
  "length (applySepia_st rnd h a) = length h"
  "length (applyInvert_st h a) = length h"
  by (simp_all add: applyBrightness_st_def applyContrast_st_def applyGrayscale_st_def
      applySepia_st_def applyInvert_st_def)

lemma st_other:
  "b \<noteq> a \<Longrightarrow> applyBrightness_st rnd h a br ! b = h ! b"
  "b \<noteq> a \<Longrightarrow> applyContrast_st rnd h a c ! b = h ! b"
  "b \<noteq> a \<Longrightarrow> applyGrayscale_st rnd h a ! b = h ! b"
  "b \<noteq> a \<Longrightarrow> applySepia_st rnd h a ! b = h ! b"
  "b \<noteq> a \<Longrightarrow> applyInvert_st h a ! b = h ! b"
  by (simp_all add: applyBrightness_st_def applyContrast_st_def applyGrayscale_st_def
      applySepia_st_def applyInvert_st_def)

lemma st_self:
  "a < length h \<Longrightarrow> applyBrightness_st rnd h a br ! a = applyBrightness rnd (h ! a) br"
  "a < length h \<Longrightarrow> applyContrast_st rnd h a c ! a = applyContrast rnd (h ! a) c"
  "a < length h \<Longrightarrow> applyGrayscale_st rnd h a ! a = applyGrayscale rnd (h ! a)"
  "a < length h \<Longrightarrow> applySepia_st rnd h a ! a = applySepia rnd (h ! a)"
  "a < length h \<Longrightarrow> applyInvert_st h a ! a = applyInvert (h ! a)"
  by (simp_all add: applyBrightness_st_def applyContrast_st_def applyGrayscale_st_def
      applySepia_st_def applyInvert_st_def)

lemma processChunk_st_frame:
  assumes "b < length h"
  shows "fst (processChunk_st rnd h a adj flt) ! b = h ! b"
  using assms
  by (simp add: processChunk_st_def Let_def st_other nth_append)

lemma processChunk_st_fresh:
  "snd (processChunk_st rnd h a adj flt) = length h
   \<and> length (fst (processChunk_st rnd h a adj flt)) = Suc (length h)"
  by (simp add: processChunk_st_def Let_def)

lemma processChunk_st_result:
  "fst (processChunk_st rnd h a adj flt) ! snd (processChunk_st rnd h a adj flt)
     = processChunk rnd (h ! a) adj flt"
  by (simp add: processChunk_st_def processChunk_def Let_def st_self st_other nth_append)

subsection \<open>What a run does to the data of the pages\<close>

lemma keeps_refl: "keeps s s"
  by (simp add: keeps_def newEvents_def)

lemma events_split:
  assumes "take (length (events s)) (events s') = events s"
  shows "events s' = events s @ newEvents s s'"
  unfolding newEvents_def using assms by (metis append_take_drop_id)

lemma newEvents_append: "events s' = events s @ n \<Longrightarrow> newEvents s s' = n"
  by (simp add: newEvents_def)

lemma keeps_trans:
  assumes "keeps s s'" and "keeps s' s''"
  shows "keeps s s''"
proof -
  obtain n1 where e1: "events s' = events s @ n1"
    using assms(1) events_split[of s s'] by (auto simp: keeps_def)
  obtain n2 where e2: "events s'' = events s' @ n2"
    using assms(2) events_split[of s' s''] by (auto simp: keeps_def)
  have e3: "events s'' = events s @ (n1 @ n2)"
    by (simp add: e1 e2)
  note n1 = newEvents_append[OF e1] and n2 = newEvents_append[OF e2]
    and n3 = newEvents_append[OF e3]
  show ?thesis
    unfolding keeps_def
  proof (intro conjI allI impI)
    show "length (pageTable s'') = length (pageTable s)"
      using assms by (simp add: keeps_def)
    show "take (length (events s)) (events s'') = events s"
      by (simp add: e3)
  next
    fix i assume i: "i < length (pageTable s)"
      and a: "status (pageTable s ! i) = Active \<and> SwappedOut i \<notin> set (newEvents s s'')"
    from a have a1: "SwappedOut i \<notin> set (newEvents s s')"
      and a2: "SwappedOut i \<notin> set (newEvents s' s'')" by (simp_all add: n1 n2 n3)
    from assms(1) i a a1 have m: "status (pageTable s' ! i) = Active"
      "data (pageTable s' ! i) = data (pageTable s ! i)" unfolding keeps_def by blast+
    from assms(1) i have i': "i < length (pageTable s')" by (simp add: keeps_def)
    from assms(2) i' m(1) a2 have "status (pageTable s'' ! i) = Active"
      "data (pageTable s'' ! i) = data (pageTable s' ! i)" unfolding keeps_def by blast+
    with m show "status (pageTable s'' ! i) = Active" 
      and "data (pageTable s'' ! i) = data (pageTable s ! i)" by simp_all
  qed
qed

lemma keeps_swapOut: "keeps s (swapOutLRUPage cfg s)"
proof (cases "findLRU s")
  case None
  then show ?thesis by (simp add: swapOutLRUPage_def keeps_refl)
next
  case (Some l)
  then show ?thesis
    by (auto simp: swapOutLRUPage_def keeps_def newEvents_def emit_def setPage_def Let_def
        nth_list_update)
qed

lemma keeps_swapIn: "keeps s (swapInPage cfg s pageId)"
proof -
  define s1 where "s1 = (if memoryLimit cfg < dbl cfg (memoryUsage (stats s) + pageSize cfg)
                then swapOutLRUPage cfg s else s)"
  have k1: "keeps s s1" by (simp add: s1_def keeps_swapOut keeps_refl)
  have k2: "keeps s1 (swapInPage cfg s pageId)"
    unfolding swapInPage_def s1_def[symmetric] Let_def
    by (auto simp: keeps_def newEvents_def emit_def setPage_def tick_def getPage_def
        nth_list_update split: option.splits if_splits)
  from k1 k2 show ?thesis by (rule keeps_trans)
qed

lemma keeps_countFault: "keeps s (countFault s)"
  by (simp add: keeps_def countFault_def newEvents_def)

lemma keeps_countHit: "keeps s (countHit s)"
  by (simp add: keeps_def countHit_def newEvents_def)

lemma keeps_touch:
  "getPage s pageId = Some p \<Longrightarrow> keeps s (tick (setPage pageId (p\<lparr>lastAccessed := t\<rparr>) s))"
  by (auto simp: keeps_def newEvents_def setPage_def tick_def getPage_def nth_list_update
      split: if_splits)

lemma keeps_acquire: "keeps s (acquire cfg s pageId)"
proof -
  define s1 where "s1 = (if \<not> has s pageId \<or> status (pageTable s ! pageId) = Inactive
                then countFault (swapInPage cfg s pageId)
                else countHit s)"
  have k1: "keeps s s1"
    unfolding s1_def
    by (auto intro: keeps_trans[OF keeps_swapIn keeps_countFault] keeps_countHit)
  have k2: "keeps s1 (acquire cfg s pageId)"
    unfolding acquire_def s1_def[symmetric] Let_def
    by (auto simp: keeps_refl keeps_touch split: option.splits)
  from k1 k2 show ?thesis by (rule keeps_trans)
qed

lemma keeps_processPages:
  "keeps (fst acc) (fst (processPages cfg fn adj flt rotation w h acc pageIds))"
proof (induction pageIds arbitrary: acc)
  case Nil
  then show ?case by (simp add: processPages_def keeps_refl)
next
  case (Cons a pageIds)
  have "keeps (fst acc) (fst (processPage cfg fn adj flt rotation w h acc a))"
    by (simp add: fst_processPage keeps_acquire)
  moreover have "keeps (fst (processPage cfg fn adj flt rotation w h acc a))
     (fst (processPages cfg fn adj flt rotation w h (processPage cfg fn adj flt rotation w h acc a) pageIds))"
    by (rule Cons.IH)
  ultimately show ?case
    by (simp add: processPages_def keeps_trans)
qed

lemma keeps_updateMemoryStats: "keeps s (updateMemoryStats s)"
  by (simp add: keeps_def updateMemoryStats_def emit_def newEvents_def)

lemma keeps_processImageChunks:
  "keeps s (fst (processImageChunks cfg s originalImage adj flt rotation))"
proof -
  have k: "\<And>fn w h out ids. keeps s (fst (processPages cfg fn adj flt rotation w h (s, out) ids))"
    using keeps_processPages[where acc = "(s, _)"] by simp
  show ?thesis
    unfolding processImageChunks_def Let_def
    by (auto simp: keeps_refl k intro: keeps_trans[OF k keeps_updateMemoryStats]
        split: option.splits)
qed

text \<open>
  C10. \<open>processChunk\<close> on the store of arrays: every array that existed before the
  call, the input chunk among them, has the same contents afterwards; the array returned
  is a new one; its contents are those computed from the contents of the input. In a
  transform run, a page that was active and is not reported as swapped out during the run
  has the same data afterwards.
\<close>

theorem processChunk_keeps_input:
  "(\<forall>b < length h. fst (processChunk_st rnd h chunkData adj flt) ! b = h ! b)
   \<and> snd (processChunk_st rnd h chunkData adj flt) = length h
   \<and> length (fst (processChunk_st rnd h chunkData adj flt)) = Suc (length h)
   \<and> fst (processChunk_st rnd h chunkData adj flt) ! snd (processChunk_st rnd h chunkData adj flt)
       = processChunk rnd (h ! chunkData) adj flt
   \<and> (\<forall>i < length (pageTable s).
         status (pageTable s ! i) = Active
         \<and> SwappedOut i \<notin> set (newEvents s (fst (processImageChunks cfg s originalImage adj flt rotation)))
         \<longrightarrow> data (pageTable (fst (processImageChunks cfg s originalImage adj flt rotation)) ! i)
             = data (pageTable s ! i))"
proof -
  have "keeps s (fst (processImageChunks cfg s originalImage adj flt rotation))"
    by (rule keeps_processImageChunks)
  then have run: "\<forall>i < length (pageTable s).
         status (pageTable s ! i) = Active
         \<and> SwappedOut i \<notin> set (newEvents s (fst (processImageChunks cfg s originalImage adj flt rotation)))
         \<longrightarrow> data (pageTable (fst (processImageChunks cfg s originalImage adj flt rotation)) ! i)
             = data (pageTable s ! i)"
    unfolding keeps_def by blast
  show ?thesis
    using run processChunk_st_fresh[of rnd h chunkData adj flt]
      processChunk_st_result[of rnd h chunkData adj flt]
    by (simp add: processChunk_st_frame)
qed

theorem processChunk_keeps_input_witness:
  "(0::nat) < length [[10, 20, 30, 255 :: byte]]
   \<and> fst (processChunk_st exact [[10, 20, 30, 255]] 0 \<lparr>brightness = 50, contrast = 0\<rparr> ''invert'') ! 0
       = [10, 20, 30, 255]
   \<and> fst (processChunk_st exact [[10, 20, 30, 255]] 0 \<lparr>brightness = 50, contrast = 0\<rparr> ''invert'') ! 1
       = [117, 107, 97, 255]
   \<and> (2::nat) < length (pageTable (stored4 4))
   \<and> status (pageTable (stored4 4) ! 2) = Active
   \<and> SwappedOut 2 \<notin> set (newEvents (stored4 4)
        (fst (processImageChunks (unitConfig 4) (stored4 4) (Some strip4)
               \<lparr>brightness = 50, contrast = 0\<rparr> ''invert'' 90)))
   \<and> data (pageTable (fst (processImageChunks (unitConfig 4) (stored4 4) (Some strip4)
               \<lparr>brightness = 50, contrast = 0\<rparr> ''invert'' 90)) ! 2) = Some [9, 10, 11, 12]"
proof -
  have h1: "(0::nat) < length [[10, 20, 30, 255 :: byte]]" by simp
  have h2: "(2::nat) < length (pageTable (stored4 4))" by code_simp
  have h3: "status (pageTable (stored4 4) ! 2) = Active" by code_simp
  have h4: "SwappedOut 2 \<notin> set (newEvents (stored4 4)
        (fst (processImageChunks (unitConfig 4) (stored4 4) (Some strip4)
               \<lparr>brightness = 50, contrast = 0\<rparr> ''invert'' 90)))" by code_simp
  have h5: "data (pageTable (stored4 4) ! 2) = Some [9, 10, 11, 12]" by code_simp
  have h6: "processChunk exact [10, 20, 30, 255] \<lparr>brightness = 50, contrast = 0\<rparr> ''invert''
      = [117, 107, 97, 255]" by code_simp
  note t = processChunk_keeps_input[of "[[10, 20, 30, 255]]" exact 0
        "\<lparr>brightness = 50, contrast = 0\<rparr>" "''invert''" "stored4 4" "unitConfig 4"
        "Some strip4" 90]
  from t h1 have a: "fst (processChunk_st exact [[10, 20, 30, 255]] 0
      \<lparr>brightness = 50, contrast = 0\<rparr> ''invert'') ! 0 = [10, 20, 30, 255]"
    by simp
  from t have b: "snd (processChunk_st exact [[10, 20, 30, 255]] 0
      \<lparr>brightness = 50, contrast = 0\<rparr> ''invert'') = 1"
    by simp
  from t have "fst (processChunk_st exact [[10, 20, 30, 255]] 0
      \<lparr>brightness = 50, contrast = 0\<rparr> ''invert'')
       ! snd (processChunk_st exact [[10, 20, 30, 255]] 0
      \<lparr>brightness = 50, contrast = 0\<rparr> ''invert'')
      = processChunk exact ([[10, 20, 30, 255]] ! 0) \<lparr>brightness = 50, contrast = 0\<rparr> ''invert''"
    by blast
  then have c: "fst (processChunk_st exact [[10, 20, 30, 255]] 0
      \<lparr>brightness = 50, contrast = 0\<rparr> ''invert'') ! 1 = [117, 107, 97, 255]"
    unfolding b using h6 by simp
  from t h2 h3 h4 have "data (pageTable (fst (processImageChunks (unitConfig 4) (stored4 4)
      (Some strip4) \<lparr>brightness = 50, contrast = 0\<rparr> ''invert'' 90)) ! 2)
      = data (pageTable (stored4 4) ! 2)"
    by blast
  with h5 have d: "data (pageTable (fst (processImageChunks (unitConfig 4) (stored4 4)
      (Some strip4) \<lparr>brightness = 50, contrast = 0\<rparr> ''invert'' 90)) ! 2)
      = Some [9, 10, 11, 12]"
    by simp
  from a c d h1 h2 h3 h4 show ?thesis by blast
qed

subsection \<open>Which page the scan finds\<close>

lemma lruScan_cases:
  "(lruScan es t l = l
      \<and> (\<forall>(j, q) \<in> set es. status q = Active \<longrightarrow> (\<exists>tt. t = Some tt \<and> tt \<le> lastAccessed q)))
   \<or> (\<exists>es1 i p es2. es = es1 @ (i, p) # es2 \<and> lruScan es t l = Some i \<and> status p = Active
        \<and> (\<forall>tt. t = Some tt \<longrightarrow> lastAccessed p < tt)
        \<and> (\<forall>(j, q) \<in> set es1. status q = Active \<longrightarrow> lastAccessed p < lastAccessed q)
        \<and> (\<forall>(j, q) \<in> set es2. status q = Active \<longrightarrow> lastAccessed p \<le> lastAccessed q))"
proof (induction es t l rule: lruScan.induct)
  case (1 oldestTime lruPageId)
  then show ?case by simp
next
  case (2 pageId p rest oldestTime lruPageId)
  let ?beats = "status p = Active \<and>
         (case oldestTime of None \<Rightarrow> True | Some t \<Rightarrow> lastAccessed p < t)"
  show ?case
  proof (cases ?beats)
    case True
    note IH = "2.IH"(1)[OF True]
    from IH show ?thesis
    proof (elim disjE conjE exE)
      assume a: "lruScan rest (Some (lastAccessed p)) (Some pageId) = Some pageId"
        and b: "\<forall>(j, q)\<in>set rest. status q = Active \<longrightarrow>
           (\<exists>tt. Some (lastAccessed p) = Some tt \<and> tt \<le> lastAccessed q)"
      have "(pageId, p) # rest = [] @ (pageId, p) # rest" by simp
      moreover have "lruScan ((pageId, p) # rest) oldestTime lruPageId = Some pageId"
        using True a by simp
      moreover have "\<forall>tt. oldestTime = Some tt \<longrightarrow> lastAccessed p < tt"
        using True by auto
      moreover have "\<forall>(j, q)\<in>set rest. status q = Active \<longrightarrow> lastAccessed p \<le> lastAccessed q"
        using b by auto
      ultimately show ?thesis
        using True
        apply (intro disjI2)
        apply (rule exI[of _ "[]"], rule exI[of _ pageId], rule exI[of _ p], rule exI[of _ rest])
        apply (simp only: simp_thms)
        by simp
    next
      fix es1 i p' es2
      assume a: "rest = es1 @ (i, p') # es2"
        and b: "lruScan rest (Some (lastAccessed p)) (Some pageId) = Some i"
        and c: "status p' = Active"
        and d: "\<forall>tt. Some (lastAccessed p) = Some tt \<longrightarrow> lastAccessed p' < tt"
        and e: "\<forall>(j, q)\<in>set es1. status q = Active \<longrightarrow> lastAccessed p' < lastAccessed q"
        and f: "\<forall>(j, q)\<in>set es2. status q = Active \<longrightarrow> lastAccessed p' \<le> lastAccessed q"
      have "(pageId, p) # rest = ((pageId, p) # es1) @ (i, p') # es2" using a by simp
      moreover have "lruScan ((pageId, p) # rest) oldestTime lruPageId = Some i"
        using True b by simp
      moreover have lt: "lastAccessed p' < lastAccessed p" using d by simp
      moreover have "\<forall>tt. oldestTime = Some tt \<longrightarrow> lastAccessed p' < tt"
        using True lt by auto
      moreover have "\<forall>(j, q)\<in>set ((pageId, p) # es1). status q = Active \<longrightarrow> lastAccessed p' < lastAccessed q"
        using e lt by auto
      ultimately show ?thesis
        using c f
        apply (intro disjI2)
        apply (rule exI[of _ "(pageId, p) # es1"], rule exI[of _ i], rule exI[of _ p'], rule exI[of _ es2])
        by simp
    qed
  next
    case False
    note IH = "2.IH"(2)[OF False]
    have nb: "status p = Active \<Longrightarrow> \<exists>tt. oldestTime = Some tt \<and> tt \<le> lastAccessed p"
      using False by (cases oldestTime) auto
    from IH show ?thesis
    proof (elim disjE conjE exE)
      assume a: "lruScan rest oldestTime lruPageId = lruPageId"
        and b: "\<forall>(j, q)\<in>set rest. status q = Active \<longrightarrow>
           (\<exists>tt. oldestTime = Some tt \<and> tt \<le> lastAccessed q)"
      have "lruScan ((pageId, p) # rest) oldestTime lruPageId = lruPageId"
        using False a by auto
      moreover have "\<forall>(j, q)\<in>set ((pageId, p) # rest). status q = Active \<longrightarrow>
           (\<exists>tt. oldestTime = Some tt \<and> tt \<le> lastAccessed q)"
        using b nb by auto
      ultimately show ?thesis by (intro disjI1 conjI)
    next
      fix es1 i p' es2
      assume a: "rest = es1 @ (i, p') # es2"
        and b: "lruScan rest oldestTime lruPageId = Some i"
        and c: "status p' = Active"
        and d: "\<forall>tt. oldestTime = Some tt \<longrightarrow> lastAccessed p' < tt"
        and e: "\<forall>(j, q)\<in>set es1. status q = Active \<longrightarrow> lastAccessed p' < lastAccessed q"
        and f: "\<forall>(j, q)\<in>set es2. status q = Active \<longrightarrow> lastAccessed p' \<le> lastAccessed q"
      have "(pageId, p) # rest = ((pageId, p) # es1) @ (i, p') # es2" using a by simp
      moreover have "lruScan ((pageId, p) # rest) oldestTime lruPageId = Some i"
        using False b by auto
      moreover have "\<forall>(j, q)\<in>set ((pageId, p) # es1). status q = Active \<longrightarrow> lastAccessed p' < lastAccessed q"
        using e nb d by fastforce
      ultimately show ?thesis
        using c d f
        apply (intro disjI2)
        apply (rule exI[of _ "(pageId, p) # es1"], rule exI[of _ i], rule exI[of _ p'], rule exI[of _ es2])
        by simp
    qed
  qed
qed

lemma entries_nth: "j < length (pageTable s) \<Longrightarrow> entries s ! j = (j, pageTable s ! j)"
  by (simp add: entries_def)

lemma entries_length [simp]: "length (entries s) = length (pageTable s)"
  by (simp add: entries_def)

lemma entries_split:
  assumes "entries s = es1 @ (i, p) # es2"
  shows "i = length es1" and "i < length (pageTable s)" and "p = pageTable s ! i"
    and "\<And>j. j < i \<Longrightarrow> (j, pageTable s ! j) \<in> set es1"
    and "\<And>j. i < j \<Longrightarrow> j < length (pageTable s) \<Longrightarrow> (j, pageTable s ! j) \<in> set es2"
proof -
  have len: "length (pageTable s) = length es1 + Suc (length es2)"
    using arg_cong[OF assms, of length] by simp
  then have lt: "length es1 < length (pageTable s)" by simp
  have "entries s ! length es1 = (i, p)" using assms by simp
  with entries_nth[OF lt] show i: "i = length es1" and "p = pageTable s ! i" by simp_all
  show "i < length (pageTable s)" using i lt by simp
  show "(j, pageTable s ! j) \<in> set es1" if "j < i" for j
  proof -
    from that i lt have "entries s ! j = (j, pageTable s ! j)" by (simp add: entries_nth)
    moreover have "entries s ! j = es1 ! j" using that i assms by (simp add: nth_append)
    ultimately show ?thesis using that i by (metis nth_mem)
  qed
  show "(j, pageTable s ! j) \<in> set es2" if "i < j" "j < length (pageTable s)" for j
  proof -
    from that have "entries s ! j = (j, pageTable s ! j)" by (simp add: entries_nth)
    moreover have "entries s ! j = es2 ! (j - Suc i)"
      using that i assms by (simp add: nth_append nth_Cons')
    moreover have "j - Suc i < length es2" using that i len by simp
    ultimately show ?thesis by (metis nth_mem)
  qed
qed

lemma findLRU_None: "findLRU s = None \<longleftrightarrow> (\<forall>j < length (pageTable s). status (pageTable s ! j) \<noteq> Active)"
proof
  assume n: "findLRU s = None"
  from lruScan_cases[of "entries s" None None] n
  have "\<forall>(j, q) \<in> set (entries s). status q \<noteq> Active"
    unfolding findLRU_def by auto
  then show "\<forall>j < length (pageTable s). status (pageTable s ! j) \<noteq> Active"
    by (auto simp: entries_mem)
next
  assume a: "\<forall>j < length (pageTable s). status (pageTable s ! j) \<noteq> Active"
  show "findLRU s = None"
  proof (cases "findLRU s")
    case (Some l)
    from findLRU_active[OF Some] a show ?thesis by auto
  qed simp
qed

lemma findLRU_Some:
  assumes "findLRU s = Some l"
  shows "l < length (pageTable s)" and "status (pageTable s ! l) = Active"
    and "\<And>j. j < length (pageTable s) \<Longrightarrow> status (pageTable s ! j) = Active \<Longrightarrow>
           lastAccessed (pageTable s ! l) \<le> lastAccessed (pageTable s ! j)
           \<and> (j < l \<longrightarrow> lastAccessed (pageTable s ! l) < lastAccessed (pageTable s ! j))"
proof -
  from findLRU_active[OF assms] show "l < length (pageTable s)"
    and "status (pageTable s ! l) = Active" by simp_all
  from lruScan_cases[of "entries s" None None] assms
  obtain es1 i p es2 where sp: "entries s = es1 @ (i, p) # es2" and i: "i = l"
    and e1: "\<forall>(j, q) \<in> set es1. status q = Active \<longrightarrow> lastAccessed p < lastAccessed q"
    and e2: "\<forall>(j, q) \<in> set es2. status q = Active \<longrightarrow> lastAccessed p \<le> lastAccessed q"
    unfolding findLRU_def by auto
  note es = entries_split[OF sp]
  show "lastAccessed (pageTable s ! l) \<le> lastAccessed (pageTable s ! j)
           \<and> (j < l \<longrightarrow> lastAccessed (pageTable s ! l) < lastAccessed (pageTable s ! j))"
    if "j < length (pageTable s)" "status (pageTable s ! j) = Active" for j
  proof -
    consider "j < i" | "j = i" | "i < j" by linarith
    then show ?thesis
    proof cases
      case 1
      from es(4)[OF 1] e1 that(2) have "lastAccessed p < lastAccessed (pageTable s ! j)" by auto
      then show ?thesis using es(3) i by simp
    next
      case 2
      then show ?thesis using i by simp
    next
      case 3
      from es(5)[OF 3 that(1)] e2 that(2) have "lastAccessed p \<le> lastAccessed (pageTable s ! j)" by auto
      then show ?thesis using es(3) i 3 by simp
    qed
  qed
qed

subsection \<open>The loop of storeImage in closed form\<close>

lemma evictions_le: "evictions cfg n \<le> n"
  by (induction n) (auto simp: le_Suc_eq)

lemma evictions_mono: "evictions cfg n \<le> evictions cfg (Suc n)"
  by simp

lemma pageAt_status: "status (pageAt cfg img t0 k i) = (if i < k then Inactive else Active)"
  by (simp add: pageAt_def evicted_def newPage_def Let_def)

lemma pageAt_lastAccessed: "lastAccessed (pageAt cfg img t0 k i) = clock cfg (t0 + i)"
  by (simp add: pageAt_def evicted_def newPage_def Let_def)

lemma findLRU_first_active:
  assumes mono: "mono (clock cfg)" and k: "k \<le> n"
    and pt: "pageTable s = map (pageAt cfg img t0 k) [0..<Suc n]"
  shows "findLRU s = Some k"
proof (cases "findLRU s")
  case None
  then have "status (pageTable s ! n) \<noteq> Active"
    using pt by (simp add: findLRU_None)
  moreover have "pageTable s ! n = pageAt cfg img t0 k n"
    unfolding pt using nth_map_upt[of n "Suc n" 0 "pageAt cfg img t0 k"] by simp
  ultimately show ?thesis using k by (simp add: pageAt_status)
next
  case (Some l)
  have nth: "\<And>j. j \<le> n \<Longrightarrow> pageTable s ! j = pageAt cfg img t0 k j"
    unfolding pt by (subst nth_map_upt) simp_all
  have len: "length (pageTable s) = Suc n" by (simp add: pt)
  note f = findLRU_Some[OF Some]
  from f(1) len have ln: "l \<le> n" by simp
  from f(2) nth[OF ln] have kl: "k \<le> l" by (simp add: pageAt_status split: if_splits)
  have "status (pageTable s ! k) = Active" using nth[OF k] by (simp add: pageAt_status)
  with f(3)[of k] k len
  have "k < l \<longrightarrow> lastAccessed (pageTable s ! l) < lastAccessed (pageTable s ! k)" by simp
  then have "k < l \<longrightarrow> clock cfg (t0 + l) < clock cfg (t0 + k)"
    using nth[OF k] nth[OF ln] by (simp add: pageAt_lastAccessed)
  moreover have "k < l \<longrightarrow> clock cfg (t0 + k) \<le> clock cfg (t0 + l)"
    using mono by (simp add: monoD)
  ultimately have "\<not> k < l" by auto
  with kl Some show ?thesis by simp
qed

lemma table_snoc:
  "k \<le> n \<Longrightarrow> map (pageAt cfg img t0 k) [0..<n] @ [newPage cfg img (clock cfg (t0 + n)) n]
     = map (pageAt cfg img t0 k) [0..<Suc n]"
  by (simp add: pageAt_def)

lemma table_evict:
  assumes "k \<le> n"
  shows "(map (pageAt cfg img t0 k) [0..<Suc n])
           [k := (map (pageAt cfg img t0 k) [0..<Suc n] ! k)\<lparr>status := Inactive, data := None\<rparr>]
         = map (pageAt cfg img t0 (Suc k)) [0..<Suc n]"
proof (rule nth_equalityI)
  show "length ((map (pageAt cfg img t0 k) [0..<Suc n])
           [k := (map (pageAt cfg img t0 k) [0..<Suc n] ! k)\<lparr>status := Inactive, data := None\<rparr>])
      = length (map (pageAt cfg img t0 (Suc k)) [0..<Suc n])" by simp
next
  fix i
  assume "i < length ((map (pageAt cfg img t0 k) [0..<Suc n])
           [k := (map (pageAt cfg img t0 k) [0..<Suc n] ! k)\<lparr>status := Inactive, data := None\<rparr>])"
  then have i: "i < Suc n" by simp
  have nth: "\<And>j kk. j < Suc n \<Longrightarrow> map (pageAt cfg img t0 kk) [0..<Suc n] ! j = pageAt cfg img t0 kk j"
    by (subst nth_map_upt) simp_all
  have k': "k < Suc n" using assms by simp
  show "(map (pageAt cfg img t0 k) [0..<Suc n])
           [k := (map (pageAt cfg img t0 k) [0..<Suc n] ! k)\<lparr>status := Inactive, data := None\<rparr>] ! i
      = map (pageAt cfg img t0 (Suc k)) [0..<Suc n] ! i"
    using i k' by (auto simp: nth_list_update nth[OF i] nth[OF k'] pageAt_def evicted_def
        simp del: upt_Suc)
qed

lemma table_evict':
  assumes "k \<le> n"
  shows "(map (pageAt cfg img t0 k) [0..<Suc n])
           [k := (pageAt cfg img t0 k k)\<lparr>status := Inactive, data := None\<rparr>]
         = map (pageAt cfg img t0 (Suc k)) [0..<Suc n]"
proof -
  have "map (pageAt cfg img t0 k) [0..<Suc n] ! k = pageAt cfg img t0 k k"
    using assms by (subst nth_map_upt) simp_all
  with table_evict[OF assms, of cfg img t0] show ?thesis by simp
qed

lemma map_upt_snoc: "map f [0..<k] @ [f k] = map f [0..<Suc k]"
  by simp

lemma mm_state_eqI:
  fixes a b :: mm_state
  assumes "pageTable a = pageTable b" and "stats a = stats b"
    and "processChunkFn a = processChunkFn b" and "events a = events b" and "ticks a = ticks b"
  shows "a = b"
  using assms by (intro mm_state.equality) simp_all

lemma stats_eqI:
  fixes a b :: stats
  assumes "activePages a = activePages b" and "inactivePages a = inactivePages b"
    and "pageHits a = pageHits b" and "pageFaults a = pageFaults b"
    and "memoryUsage a = memoryUsage b" and "totalWidth a = totalWidth b"
    and "totalHeight a = totalHeight b" and "totalPixels a = totalPixels b"
    and "totalPages a = totalPages b"
  shows "a = b"
  using assms by (intro stats.equality) simp_all

lemma evictions_0:
  "evictions cfg (Suc n) = 0 \<Longrightarrow>
     evictions cfg n = 0 \<and> \<not> memoryLimit cfg < dbl cfg (usageAfter cfg n + pageSize cfg)"
  by (simp split: if_splits)

lemma evictions_0_le: "evictions cfg n = 0 \<Longrightarrow> m \<le> n \<Longrightarrow> evictions cfg m = 0"
proof (induction n arbitrary: m)
  case 0
  then show ?case by simp
next
  case (Suc n)
  show ?case
  proof (cases "m = Suc n")
    case True
    with Suc.prems show ?thesis by simp
  next
    case False
    with Suc.prems have "m \<le> n" by simp
    moreover from evictions_0[OF Suc.prems(1)] have "evictions cfg n = 0" by simp
    ultimately show ?thesis by (rule Suc.IH[rotated])
  qed
qed

lemma storePage_step:
  assumes mono: "mono (clock cfg) \<or> evictions cfg (Suc n) = 0"
  shows "storePage cfg img (storedState cfg img s0 n) n = storedState cfg img s0 (Suc n)"
proof -
  define k where "k = evictions cfg n"
  define u where "u = dbl cfg (usageAfter cfg n + pageSize cfg)"
  have kn: "k \<le> n" by (simp add: k_def evictions_le)
  define s2 where "s2 = s0\<lparr> pageTable := map (pageAt cfg img (ticks s0) k) [0..<Suc n],
             stats := (stats s0)\<lparr> activePages := int n - int k + 1, inactivePages := int k,
                                   memoryUsage := u \<rparr>,
             events := events s0 @ map SwappedOut [0..<k],
             ticks := ticks s0 + Suc n \<rparr>"
  define s2' where "s2' = (let s = storedState cfg img s0 n;
          p = newPage cfg img (dateNow cfg s) n;
          s1 = tick (s\<lparr>pageTable := pageTable s @ [p]\<rparr>)
      in s1\<lparr>stats := (stats s1)\<lparr>
                 activePages := activePages (stats s1) + 1,
                 memoryUsage := dbl cfg (memoryUsage (stats s1) + pageSize cfg)\<rparr>\<rparr>)"
  have sp: "storePage cfg img (storedState cfg img s0 n) n
      = (if memoryLimit cfg < memoryUsage (stats s2') then swapOutLRUPage cfg s2' else s2')"
    by (simp add: storePage_def s2'_def Let_def)
  have "s2' = s2"
    unfolding s2'_def s2_def storedState_def Let_def k_def[symmetric] u_def
    by (intro mm_state_eqI stats_eqI)
      (simp_all add: tick_def dateNow_def table_snoc[OF kn] del: upt_Suc of_nat_diff)
  note sp = sp[unfolded this]
  have mu: "memoryUsage (stats s2) = u"
    by (simp add: s2_def)
  show ?thesis
  proof (cases "memoryLimit cfg < u")
    case False
    then have ev: "evictions cfg (Suc n) = k" and us: "usageAfter cfg (Suc n) = u"
      by (simp_all add: k_def u_def Let_def)
    have "storedState cfg img s0 (Suc n) = s2"
      unfolding storedState_def Let_def s2_def ev us using kn
      by (intro mm_state_eqI stats_eqI) (simp_all del: upt_Suc)
    with sp mu False show ?thesis by simp
  next
    case True
    then have ev: "evictions cfg (Suc n) = Suc k"
      and us: "usageAfter cfg (Suc n) = dbl cfg (u - pageSize cfg)"
      by (simp_all add: k_def u_def Let_def)
    have pt: "pageTable s2 = map (pageAt cfg img (ticks s0) k) [0..<Suc n]"
      by (simp add: s2_def)
    from mono ev have mono': "mono (clock cfg)" by simp
    have lru: "findLRU s2 = Some k"
      by (rule findLRU_first_active[OF mono' kn pt])
    have "swapOutLRUPage cfg s2 = storedState cfg img s0 (Suc n)"
      unfolding swapOutLRUPage_def lru storedState_def ev us Let_def option.case
      using kn
      by (intro mm_state_eqI stats_eqI)
        (simp_all add: setPage_def emit_def pt table_evict'[OF kn] s2_def map_upt_snoc
           del: upt_Suc of_nat_diff)
    with sp mu True show ?thesis by simp
  qed
qed

lemma storedState_0:
  assumes "pageTable s0 = []" and "activePages (stats s0) = 0"
    and "inactivePages (stats s0) = 0" and "memoryUsage (stats s0) = 0"
  shows "storedState cfg img s0 0 = s0"
  using assms by (simp add: storedState_def)

lemma store_loop:
  assumes mono: "mono (clock cfg) \<or> evictions cfg n = 0"
    and "pageTable s0 = []" and "activePages (stats s0) = 0"
    and "inactivePages (stats s0) = 0" and "memoryUsage (stats s0) = 0"
  shows "foldl (storePage cfg img) s0 [0..<n] = storedState cfg img s0 n"
  using mono
proof (induction n)
  case 0
  show ?case using assms(2-5) by (simp add: storedState_0)
next
  case (Suc n)
  have "mono (clock cfg) \<or> evictions cfg n = 0"
  proof (cases "mono (clock cfg)")
    case False
    with Suc.prems have "evictions cfg (Suc n) = 0" by simp
    from evictions_0[OF this] show ?thesis by simp
  qed simp
  from Suc.IH[OF this] show ?case by (simp add: storePage_step[OF Suc.prems])
qed

subsection \<open>storeImage in closed form\<close>

lemma pageCount_pos:
  "0 < pixelsPerPage cfg \<Longrightarrow> pageCount cfg img = Fin (of_int (int (numPages cfg img)))"
proof -
  assume p: "0 < pixelsPerPage cfg"
  have "0 \<le> (of_nat (width img * height img) / of_int (pixelsPerPage cfg) :: rat)"
    using p by simp
  then have "0 \<le> \<lceil>of_nat (width img * height img) / of_int (pixelsPerPage cfg) :: rat\<rceil>"
    by linarith
  then show ?thesis using p by (simp add: pageCount_def numPages_def exact_def)
qed

lemma storeImage_loop:
  assumes "0 < pixelsPerPage cfg"
  shows "storeImage cfg s (Some img)
    = Some (updateMemoryStats (foldl (storePage cfg img) (storeBase cfg img s) [0..<numPages cfg img]))"
  unfolding storeImage_def storeBase_def Let_def
  by (simp add: pageCount_pos[OF assms])

lemma storeBase_fields:
  "pageTable (storeBase cfg img s) = []"
  "activePages (stats (storeBase cfg img s)) = 0"
  "inactivePages (stats (storeBase cfg img s)) = 0"
  "memoryUsage (stats (storeBase cfg img s)) = 0"
  "pageHits (stats (storeBase cfg img s)) = 0"
  "pageFaults (stats (storeBase cfg img s)) = 0"
  "events (storeBase cfg img s) = events s @ [StatsUpdated emptyStats]"
  "ticks (storeBase cfg img s) = ticks s"
  "processChunkFn (storeBase cfg img s) = processChunkFn s"
  by (simp_all add: storeBase_def clearAllPages_def updateMemoryStats_def emit_def emptyStats_def)

lemma storeImage_closed:
  assumes "0 < pixelsPerPage cfg"
    and "mono (clock cfg) \<or> evictions cfg (numPages cfg img) = 0"
  shows "storeImage cfg s (Some img)
    = Some (updateMemoryStats (storedState cfg img (storeBase cfg img s) (numPages cfg img)))"
proof -
  have "foldl (storePage cfg img) (storeBase cfg img s) [0..<numPages cfg img]
      = storedState cfg img (storeBase cfg img s) (numPages cfg img)"
    by (rule store_loop[OF assms(2)]) (simp_all add: storeBase_fields)
  then show ?thesis by (simp add: storeImage_loop[OF assms(1)])
qed

lemma pageSize_pos: "0 < pixelsPerPage cfg \<Longrightarrow> 0 < pageSize cfg"
proof (rule ccontr)
  assume p: "0 < pixelsPerPage cfg" and "\<not> 0 < pageSize cfg"
  then have "pageSize cfg * 1024 * 1024 / 4 \<le> 0" by simp
  then have "\<lfloor>pageSize cfg * 1024 * 1024 / 4\<rfloor> \<le> 0" by linarith
  with p show False by (simp add: pixelsPerPage_def)
qed

lemma fits_iff:
  assumes "0 < pageSize cfg"
  shows "memoryLimit cfg < of_nat (Suc r) * pageSize cfg \<longleftrightarrow> capacity cfg \<le> r"
proof -
  have "memoryLimit cfg < of_nat (Suc r) * pageSize cfg
      \<longleftrightarrow> memoryLimit cfg / pageSize cfg < of_int (int (Suc r))"
    using assms by (simp add: pos_divide_less_eq)
  also have "\<dots> \<longleftrightarrow> \<lfloor>memoryLimit cfg / pageSize cfg\<rfloor> < int (Suc r)"
    by (simp only: floor_less_iff)
  also have "\<dots> \<longleftrightarrow> capacity cfg \<le> r"
    unfolding capacity_def by linarith
  finally show ?thesis .
qed

lemma usage_exact:
  assumes ps: "0 < pageSize cfg" and ex: "exactSums cfg n"
  shows "m \<le> n \<Longrightarrow>
    usageAfter cfg m = of_nat (m - evictions cfg m) * pageSize cfg
    \<and> m - evictions cfg m = min m (capacity cfg)"
proof (induction m)
  case 0
  then show ?case by simp
next
  case (Suc m)
  define r where "r = m - evictions cfg m"
  from Suc have mn: "m < n" and us: "usageAfter cfg m = of_nat r * pageSize cfg"
    and rm: "r = min m (capacity cfg)"
    by (simp_all add: r_def)
  have le: "evictions cfg m \<le> m" by (rule evictions_le)
  from rm mn have r1: "Suc r \<le> n" and r0: "r \<le> n" by simp_all
  have "usageAfter cfg m + pageSize cfg = of_nat (Suc r) * pageSize cfg"
    by (simp add: us algebra_simps)
  moreover have "dbl cfg (of_nat (Suc r) * pageSize cfg) = of_nat (Suc r) * pageSize cfg"
    using ex r1 unfolding exactSums_def by blast
  ultimately have u: "dbl cfg (usageAfter cfg m + pageSize cfg) = of_nat (Suc r) * pageSize cfg"
    by simp
  have d: "dbl cfg (of_nat (Suc r) * pageSize cfg - pageSize cfg) = of_nat r * pageSize cfg"
  proof -
    have "of_nat (Suc r) * pageSize cfg - pageSize cfg = of_nat r * pageSize cfg"
      by (simp add: algebra_simps)
    moreover have "dbl cfg (of_nat r * pageSize cfg) = of_nat r * pageSize cfg"
      using ex r0 unfolding exactSums_def by blast
    ultimately show ?thesis by simp
  qed
  show ?case
  proof (cases "capacity cfg \<le> r")
    case True
    then have t: "memoryLimit cfg < of_nat (Suc r) * pageSize cfg"
      using fits_iff[OF ps, of r] by blast
    have ev: "evictions cfg (Suc m) = Suc (evictions cfg m)"
      using t by (simp add: u del: of_nat_Suc)
    have "usageAfter cfg (Suc m) = of_nat r * pageSize cfg"
      using t by (simp add: u d Let_def del: of_nat_Suc)
    moreover have "Suc m - evictions cfg (Suc m) = r" unfolding ev by (simp add: r_def)
    moreover have "r = min (Suc m) (capacity cfg)" using True rm by simp
    ultimately show ?thesis by simp
  next
    case False
    then have t: "\<not> memoryLimit cfg < of_nat (Suc r) * pageSize cfg"
      using fits_iff[OF ps, of r] by blast
    have ev: "evictions cfg (Suc m) = evictions cfg m"
      using t by (simp add: u del: of_nat_Suc)
    have "usageAfter cfg (Suc m) = of_nat (Suc r) * pageSize cfg"
      using t by (simp add: u Let_def del: of_nat_Suc)
    moreover have "Suc m - evictions cfg (Suc m) = Suc r"
      unfolding ev using le by (simp add: r_def Suc_diff_le)
    moreover have "Suc r = min (Suc m) (capacity cfg)" using False rm by simp
    ultimately show ?thesis by (simp del: of_nat_Suc)
  qed
qed

lemma evictions_closed:
  assumes "0 < pageSize cfg" and "exactSums cfg n"
  shows "evictions cfg n = n - capacity cfg"
  using usage_exact[OF assms, of n] evictions_le[of cfg n] by linarith

lemma storedState_nth:
  "i < n \<Longrightarrow> pageTable (storedState cfg img s0 n) ! i
     = pageAt cfg img (ticks s0) (evictions cfg n) i"
  by (simp add: storedState_def Let_def del: upt_Suc)

lemma storedState_length [simp]: "length (pageTable (storedState cfg img s0 n)) = n"
  by (simp add: storedState_def Let_def)

subsection \<open>Which pages storeImage swaps out\<close>

lemma pageAt_fields:
  "startPixel (pageAt cfg img t0 k i) = i * nat (pixelsPerPage cfg)"
  "endPixel (pageAt cfg img t0 k i) = min ((i + 1) * nat (pixelsPerPage cfg)) (width img * height img)"
  "startIndex (pageAt cfg img t0 k i) = i * nat (pixelsPerPage cfg) * 4"
  "endIndex (pageAt cfg img t0 k i) = min ((i + 1) * nat (pixelsPerPage cfg)) (width img * height img) * 4"
  by (simp_all add: pageAt_def evicted_def newPage_def Let_def)

lemma updateMemoryStats_fields [simp]:
  "pageTable (updateMemoryStats s) = pageTable s"
  "stats (updateMemoryStats s) = stats s"
  "ticks (updateMemoryStats s) = ticks s"
  "processChunkFn (updateMemoryStats s) = processChunkFn s"
  "events (updateMemoryStats s) = events s @ [StatsUpdated (stats s)]"
  by (simp_all add: updateMemoryStats_def emit_def)

text \<open>
  C3, as the code has it. With a clock that never runs backwards and a page that holds at
  least one pixel, \<open>storeImage\<close> admits the pages one at a time in ascending order of
  their ids (page \<open>i\<close> starts at pixel \<open>i * pixelsPerPage\<close> and is stamped with the
  \<open>i\<close>-th reading of the clock) and swaps out the least recently used active page
  whenever the usage, as the code sums it up, exceeds the limit. The pages swapped out
  are the lowest-numbered ones, in ascending order: when the usage has exceeded the limit
  in \<open>k\<close> of the rounds, the events report the pages \<open>0, ..., k - 1\<close> in this order, these
  are inactive afterwards, and the highest-numbered pages are the ones that stay active.
  When the sums are computed without rounding, \<open>k\<close> is the number of pages less the
  number of pages that fit the budget.
\<close>

theorem storeImage_evicts_lowest:
  assumes "mono (clock cfg)" and "0 < pixelsPerPage cfg"
  shows "\<exists>s'. storeImage cfg s (Some img) = Some s'
     \<and> length (pageTable s') = numPages cfg img
     \<and> evictions cfg (numPages cfg img) \<le> numPages cfg img
     \<and> (\<forall>i < numPages cfg img.
           startPixel (pageTable s' ! i) = i * nat (pixelsPerPage cfg)
         \<and> lastAccessed (pageTable s' ! i) = clock cfg (ticks s + i)
         \<and> status (pageTable s' ! i)
             = (if i < evictions cfg (numPages cfg img) then Inactive else Active))
     \<and> newEvents s s'
         = StatsUpdated emptyStats # map SwappedOut [0..<evictions cfg (numPages cfg img)]
             @ [StatsUpdated (stats s')]
     \<and> memoryUsage (stats s') = usageAfter cfg (numPages cfg img)
     \<and> (exactSums cfg (numPages cfg img)
          \<longrightarrow> evictions cfg (numPages cfg img) = numPages cfg img - capacity cfg)"
proof -
  define n where "n = numPages cfg img"
  define k where "k = evictions cfg n"
  define s' where "s' = updateMemoryStats (storedState cfg img (storeBase cfg img s) n)"
  have st: "storeImage cfg s (Some img) = Some s'"
    unfolding s'_def n_def using assms by (simp add: storeImage_closed)
  have kn: "k \<le> n" by (simp add: k_def evictions_le)
  have ex: "exactSums cfg n \<longrightarrow> k = n - capacity cfg"
    using evictions_closed[OF pageSize_pos[OF assms(2)], of n] by (simp add: k_def)
  have len: "length (pageTable s') = n" by (simp add: s'_def)
  have pg: "\<And>i. i < n \<Longrightarrow> pageTable s' ! i = pageAt cfg img (ticks s) k i"
    by (simp add: s'_def storedState_nth k_def storeBase_fields)
  have ev: "events s' = events s @ (StatsUpdated emptyStats # map SwappedOut [0..<k]
             @ [StatsUpdated (stats s')])"
    by (simp add: s'_def storedState_def Let_def k_def storeBase_fields)
  have mu: "memoryUsage (stats s') = usageAfter cfg n"
    by (simp add: s'_def storedState_def Let_def)
  show ?thesis
    unfolding n_def[symmetric] k_def[symmetric]
    using st len newEvents_append[OF ev] kn mu ex
    by (auto simp: pg pageAt_fields pageAt_lastAccessed pageAt_status)
qed

text \<open>
  Four pages under a budget of two: the first page swapped out is page 0, then page 1;
  the two highest-numbered pages are never swapped out.
\<close>

theorem storeImage_evicts_lowest_counterexample:
  "newEvents readyState (stored4 2)
     = [StatsUpdated emptyStats, SwappedOut 0, SwappedOut 1, StatsUpdated (stats (stored4 2))]
   \<and> map status (pageTable (stored4 2)) = [Inactive, Inactive, Active, Active]"
  by code_simp

lemma mono_unit_clock: "mono (clock (unitConfig b))"
  by (simp add: unitConfig_def mono_def)

theorem storeImage_evicts_lowest_witness:
  "mono (clock (unitConfig 2)) \<and> 0 < pixelsPerPage (unitConfig 2)
   \<and> exactSums (unitConfig 2) (numPages (unitConfig 2) strip4)
   \<and> numPages (unitConfig 2) strip4 = 4 \<and> capacity (unitConfig 2) = 2
   \<and> evictions (unitConfig 2) (numPages (unitConfig 2) strip4) = 2
   \<and> map status (pageTable (stored4 2)) = [Inactive, Inactive, Active, Active]
   \<and> newEvents readyState (stored4 2)
       = [StatsUpdated emptyStats, SwappedOut 0, SwappedOut 1, StatsUpdated (stats (stored4 2))]"
proof -
  have m: "mono (clock (unitConfig 2))" by (rule mono_unit_clock)
  have p: "0 < pixelsPerPage (unitConfig 2)" by (simp add: pixelsPerPage_def unitConfig_def)
  have n: "numPages (unitConfig 2) strip4 = 4"
    by (simp add: numPages_def pixelsPerPage_def unitConfig_def strip4_def)
  have c: "capacity (unitConfig 2) = 2" by (simp add: capacity_def unitConfig_def)
  have x: "exactSums (unitConfig 2) 4" by (simp add: exactSums_def unitConfig_def exact_def)
  from storeImage_evicts_lowest[OF m p, of readyState strip4]
  obtain s' where s': "storeImage (unitConfig 2) readyState (Some strip4) = Some s'"
    and len: "length (pageTable s') = 4"
    and pg: "\<forall>i < 4. status (pageTable s' ! i)
               = (if i < evictions (unitConfig 2) 4 then Inactive else Active)"
    and ev: "newEvents readyState s'
       = StatsUpdated emptyStats # map SwappedOut [0..<evictions (unitConfig 2) 4]
           @ [StatsUpdated (stats s')]"
    and k: "exactSums (unitConfig 2) 4 \<longrightarrow> evictions (unitConfig 2) 4 = 4 - capacity (unitConfig 2)"
    unfolding n by auto
  from k x c have k2: "evictions (unitConfig 2) 4 = 2" by simp
  have eq: "stored4 2 = s'" by (simp add: stored4_def s')
  have "map status (pageTable s') = [Inactive, Inactive, Active, Active]"
    using len pg unfolding k2 by (auto simp: list_eq_iff_nth_eq nth_Cons' )
  moreover have "[0..<2] = [0, Suc 0]" by (simp add: upt_rec numeral_2_eq_2)
  ultimately show ?thesis using m p n c x k2 ev unfolding eq by simp
qed

subsection \<open>storeImage and the length of the buffer\<close>

lemma evicted_idem [simp]: "evicted (evicted p) = evicted p"
  by (simp add: evicted_def)

lemma swapOut_nth:
  "i < length (pageTable s) \<Longrightarrow>
     pageTable (swapOutLRUPage cfg s) ! i = pageTable s ! i
     \<or> pageTable (swapOutLRUPage cfg s) ! i = evicted (pageTable s ! i)"
proof (cases "findLRU s")
  case None
  then show ?thesis by (simp add: swapOutLRUPage_def)
next
  case (Some l)
  assume "i < length (pageTable s)"
  then show ?thesis
    using Some
    by (cases "i = l") (simp_all add: swapOutLRUPage_def setPage_def emit_def Let_def evicted_def)
qed

lemma swapOut_events_prefix:
  "take (length (events s)) (events (swapOutLRUPage cfg s)) = events s"
  by (cases "findLRU s") (auto simp: swapOutLRUPage_def setPage_def emit_def Let_def)

lemma shaped_storePage:
  assumes "shaped cfg img s"
  shows "shaped cfg img (storePage cfg img s (length (pageTable s)))"
    and "length (pageTable (storePage cfg img s (length (pageTable s)))) = Suc (length (pageTable s))"
proof -
  define p where "p = newPage cfg img (dateNow cfg s) (length (pageTable s))"
  define s1 where "s1 = tick (s\<lparr>pageTable := pageTable s @ [p]\<rparr>)"
  define s2 where "s2 = s1\<lparr>stats := (stats s1)\<lparr>
                 activePages := activePages (stats s1) + 1,
                 memoryUsage := dbl cfg (memoryUsage (stats s1) + pageSize cfg)\<rparr>\<rparr>"
  have sp: "storePage cfg img s (length (pageTable s))
      = (if memoryLimit cfg < memoryUsage (stats s2) then swapOutLRUPage cfg s2 else s2)"
    by (simp add: storePage_def Let_def s2_def s1_def p_def)
  have pt2: "pageTable s2 = pageTable s @ [p]" by (simp add: s2_def s1_def tick_def)
  have sh2: "shaped cfg img s2"
    unfolding shaped_def pt2 using assms
    by (auto simp: shaped_def s2_def s1_def tick_def nth_append p_def less_Suc_eq)
  have sh3: "shaped cfg img (swapOutLRUPage cfg s2)"
    unfolding shaped_def
  proof (intro conjI allI impI)
    show "pageHits (stats (swapOutLRUPage cfg s2)) = 0" using sh2 by (simp add: shaped_def)
    show "pageFaults (stats (swapOutLRUPage cfg s2)) = 0" using sh2 by (simp add: shaped_def)
  next
    fix i assume "i < length (pageTable (swapOutLRUPage cfg s2))"
    then have i: "i < length (pageTable s2)" by simp
    from sh2 i obtain stamp where
      "pageTable s2 ! i = newPage cfg img stamp i
       \<or> pageTable s2 ! i = evicted (newPage cfg img stamp i)"
      unfolding shaped_def by blast
    with swapOut_nth[OF i, of cfg]
    have "pageTable (swapOutLRUPage cfg s2) ! i = newPage cfg img stamp i
       \<or> pageTable (swapOutLRUPage cfg s2) ! i = evicted (newPage cfg img stamp i)"
      by auto
    then show "\<exists>stamp. pageTable (swapOutLRUPage cfg s2) ! i = newPage cfg img stamp i
       \<or> pageTable (swapOutLRUPage cfg s2) ! i = evicted (newPage cfg img stamp i)" ..
  qed
  show "shaped cfg img (storePage cfg img s (length (pageTable s)))"
    using sh2 sh3 by (simp add: sp)
  show "length (pageTable (storePage cfg img s (length (pageTable s)))) = Suc (length (pageTable s))"
    by (simp add: sp pt2)
qed

lemma shaped_loop:
  assumes "shaped cfg img s0" and "pageTable s0 = []"
  shows "shaped cfg img (foldl (storePage cfg img) s0 [0..<n])
       \<and> length (pageTable (foldl (storePage cfg img) s0 [0..<n])) = n"
proof (induction n)
  case 0
  then show ?case using assms by simp
next
  case (Suc n)
  then show ?case using shaped_storePage[of cfg img "foldl (storePage cfg img) s0 [0..<n]"]
    by simp
qed

lemma storePage_events_prefix:
  "take (length (events s)) (events (storePage cfg img s i)) = events s"
proof -
  define s2 where "s2 = (let p = newPage cfg img (dateNow cfg s) i;
          s1 = tick (s\<lparr>pageTable := pageTable s @ [p]\<rparr>)
      in s1\<lparr>stats := (stats s1)\<lparr>
                 activePages := activePages (stats s1) + 1,
                 memoryUsage := dbl cfg (memoryUsage (stats s1) + pageSize cfg)\<rparr>\<rparr>)"
  have e: "events s2 = events s" by (simp add: s2_def Let_def tick_def)
  have sp: "storePage cfg img s i
      = (if memoryLimit cfg < memoryUsage (stats s2) then swapOutLRUPage cfg s2 else s2)"
    by (simp add: storePage_def Let_def s2_def)
  show ?thesis
    using swapOut_events_prefix[of s2 cfg] by (simp add: sp e)
qed

lemma store_loop_events_prefix:
  "take (length (events s0)) (events (foldl (storePage cfg img) s0 [0..<n])) = events s0"
proof (induction n)
  case 0
  then show ?case by simp
next
  case (Suc n)
  define s where "s = foldl (storePage cfg img) s0 [0..<n]"
  from Suc have a: "take (length (events s0)) (events s) = events s0" by (simp add: s_def)
  have b: "take (length (events s)) (events (storePage cfg img s n)) = events s"
    by (rule storePage_events_prefix)
  have "length (events s0) \<le> length (events s)"
    using a by (metis length_take min.cobounded1 min.commute)
  then have "take (length (events s0)) (events (storePage cfg img s n))
     = take (length (events s0)) (take (length (events s)) (events (storePage cfg img s n)))"
    by (simp add: min_def)
  with a b show ?case by (simp add: s_def)
qed

lemma reported_swapOut:
  assumes "reported e0 s"
  shows "reported e0 (swapOutLRUPage cfg s)"
proof (cases "findLRU s")
  case None
  with assms show ?thesis by (simp add: swapOutLRUPage_def)
next
  case (Some l)
  from findLRU_active[OF Some]
  have l: "l < length (pageTable s)" and a: "status (pageTable s ! l) = Active" by simp_all
  from assms have e: "e0 \<le> length (events s)"
    and r: "\<And>i. SwappedOut i \<in> set (drop e0 (events s))
            \<longleftrightarrow> i < length (pageTable s) \<and> status (pageTable s ! i) = Inactive"
    unfolding reported_def by simp_all
  have pt: "pageTable (swapOutLRUPage cfg s) = (pageTable s)[l := evicted (pageTable s ! l)]"
    and ev: "events (swapOutLRUPage cfg s) = events s @ [SwappedOut l]"
    using Some by (simp_all add: swapOutLRUPage_def setPage_def emit_def Let_def evicted_def)
  show ?thesis
    unfolding reported_def pt ev
  proof (intro conjI allI)
    show "e0 \<le> length (events s @ [SwappedOut l])" using e by simp
  next
    fix i
    show "SwappedOut i \<in> set (drop e0 (events s @ [SwappedOut l]))
       \<longleftrightarrow> i < length ((pageTable s)[l := evicted (pageTable s ! l)])
           \<and> status ((pageTable s)[l := evicted (pageTable s ! l)] ! i) = Inactive"
    proof (cases "i = l")
      case True
      with l e show ?thesis by (simp add: evicted_def)
    next
      case False
      with e r[of i] show ?thesis by simp
    qed
  qed
qed

lemma reported_storePage:
  assumes "reported e0 s"
  shows "reported e0 (storePage cfg img s (length (pageTable s)))"
proof -
  define p where "p = newPage cfg img (dateNow cfg s) (length (pageTable s))"
  define s1 where "s1 = tick (s\<lparr>pageTable := pageTable s @ [p]\<rparr>)"
  define s2 where "s2 = s1\<lparr>stats := (stats s1)\<lparr>
                 activePages := activePages (stats s1) + 1,
                 memoryUsage := dbl cfg (memoryUsage (stats s1) + pageSize cfg)\<rparr>\<rparr>"
  have sp: "storePage cfg img s (length (pageTable s))
      = (if memoryLimit cfg < memoryUsage (stats s2) then swapOutLRUPage cfg s2 else s2)"
    by (simp add: storePage_def Let_def s2_def s1_def p_def)
  have pt2: "pageTable s2 = pageTable s @ [p]" by (simp add: s2_def s1_def tick_def)
  have ev2: "events s2 = events s" by (simp add: s2_def s1_def tick_def)
  have ac: "status p = Active" by (simp add: p_def newPage_def Let_def)
  from assms have e: "e0 \<le> length (events s)"
    and r: "\<And>i. SwappedOut i \<in> set (drop e0 (events s))
            \<longleftrightarrow> i < length (pageTable s) \<and> status (pageTable s ! i) = Inactive"
    unfolding reported_def by simp_all
  have r2: "reported e0 s2"
    unfolding reported_def pt2 ev2
  proof (intro conjI allI)
    show "e0 \<le> length (events s)" by (rule e)
  next
    fix i
    show "SwappedOut i \<in> set (drop e0 (events s))
       \<longleftrightarrow> i < length (pageTable s @ [p]) \<and> status ((pageTable s @ [p]) ! i) = Inactive"
      using r[of i] ac by (auto simp: nth_append less_Suc_eq)
  qed
  show ?thesis
    using r2 reported_swapOut[OF r2, of cfg] by (simp add: sp)
qed

lemma reported_loop:
  assumes "reported e0 s0" and "pageTable s0 = []"
  shows "reported e0 (foldl (storePage cfg img) s0 [0..<n])
       \<and> length (pageTable (foldl (storePage cfg img) s0 [0..<n])) = n"
proof (induction n)
  case 0
  then show ?case using assms by simp
next
  case (Suc n)
  define sn where "sn = foldl (storePage cfg img) s0 [0..<n]"
  from Suc have r: "reported e0 sn" and len: "length (pageTable sn) = n"
    by (simp_all add: sn_def)
  have sh: "length (pageTable (storePage cfg img sn (length (pageTable sn))))
      = Suc (length (pageTable sn))"
    by (simp add: storePage_def Let_def tick_def)
  from reported_storePage[OF r, of cfg img] sh show ?case
    by (simp add: sn_def[symmetric] len)
qed

text \<open>
  C8, as the code has it. \<open>storeImage\<close> does not compare the length of the buffer with
  \<open>width * height * 4\<close> and has no failure for it. When a page holds at least one pixel,
  for a buffer of any length it returns with \<open>\<lceil>width * height / pixelsPerPage\<rceil>\<close> pages;
  every page records its byte range; a page is inactive exactly when it has been reported
  as swapped out while the image was stored; the data of an active page is the slice of
  the buffer for the page's range, cut off at the end of the buffer, and an inactive page
  has no data. The counters are reset, the first event is the update of the cleared
  statistics and the last one the update of the final statistics.
\<close>

theorem storeImage_no_length_check:
  assumes "0 < pixelsPerPage cfg"
  shows "\<exists>s'. storeImage cfg s (Some img) = Some s'
     \<and> length (pageTable s') = numPages cfg img
     \<and> (\<forall>i < numPages cfg img.
           startIndex (pageTable s' ! i) = i * nat (pixelsPerPage cfg) * 4
         \<and> endIndex (pageTable s' ! i)
             = min ((i + 1) * nat (pixelsPerPage cfg)) (width img * height img) * 4
         \<and> (status (pageTable s' ! i) = Inactive \<longleftrightarrow> SwappedOut i \<in> set (newEvents s s'))
         \<and> data (pageTable s' ! i)
             = (if status (pageTable s' ! i) = Active
                then Some (take (endIndex (pageTable s' ! i) - startIndex (pageTable s' ! i))
                             (drop (startIndex (pageTable s' ! i)) (imgdata img)))
                else None))
     \<and> pageHits (stats s') = 0 \<and> pageFaults (stats s') = 0
     \<and> take (Suc (length (events s))) (events s') = events s @ [StatsUpdated emptyStats]
     \<and> last (events s') = StatsUpdated (stats s')"
proof -
  define n where "n = numPages cfg img"
  define s1 where "s1 = foldl (storePage cfg img) (storeBase cfg img s) [0..<n]"
  define s' where "s' = updateMemoryStats s1"
  define e0 where "e0 = Suc (length (events s))"
  have st: "storeImage cfg s (Some img) = Some s'"
    unfolding s'_def s1_def n_def by (simp add: storeImage_loop[OF assms])
  have "shaped cfg img (storeBase cfg img s)"
    by (simp add: shaped_def storeBase_fields)
  from shaped_loop[OF this storeBase_fields(1), of n]
  have sh: "shaped cfg img s1" and len: "length (pageTable s1) = n"
    by (simp_all add: s1_def)
  have "reported e0 (storeBase cfg img s)"
    by (simp add: reported_def storeBase_fields e0_def)
  from reported_loop[OF this storeBase_fields(1), of cfg img n]
  have rp: "reported e0 s1" by (simp add: s1_def)
  have pre: "take (length (events (storeBase cfg img s))) (events s1) = events (storeBase cfg img s)"
    unfolding s1_def by (rule store_loop_events_prefix)
  have "events s1 = events (storeBase cfg img s)
      @ drop (length (events (storeBase cfg img s))) (events s1)"
    using pre by (metis append_take_drop_id)
  then obtain more where more: "events s1 = (events s @ [StatsUpdated emptyStats]) @ more"
    unfolding storeBase_fields by blast
  then have pre': "take (Suc (length (events s))) (events s' ) = events s @ [StatsUpdated emptyStats]"
    by (simp add: s'_def)
  have ne: "newEvents s s' = StatsUpdated emptyStats # more @ [StatsUpdated (stats s1)]"
    by (simp add: newEvents_def s'_def more)
  have dr: "drop e0 (events s1) = more"
    by (simp add: e0_def more)
  have inact: "status (pageTable s1 ! i) = Inactive \<longleftrightarrow> SwappedOut i \<in> set (newEvents s s')"
    if "i < n" for i
    using rp that len unfolding reported_def dr ne by simp
  have pages: "startIndex (pageTable s1 ! i) = i * nat (pixelsPerPage cfg) * 4
         \<and> endIndex (pageTable s1 ! i)
             = min ((i + 1) * nat (pixelsPerPage cfg)) (width img * height img) * 4
         \<and> data (pageTable s1 ! i)
             = (if status (pageTable s1 ! i) = Active
                then Some (take (endIndex (pageTable s1 ! i) - startIndex (pageTable s1 ! i))
                             (drop (startIndex (pageTable s1 ! i)) (imgdata img)))
                else None)" if "i < n" for i
  proof -
    from sh that len obtain stamp where
      "pageTable s1 ! i = newPage cfg img stamp i
       \<or> pageTable s1 ! i = evicted (newPage cfg img stamp i)"
      unfolding shaped_def by auto
    then show ?thesis
      by (auto simp: newPage_def evicted_def Let_def)
  qed
  have pt': "pageTable s' = pageTable s1" by (simp add: s'_def)
  have pages': "\<forall>i < n.
           startIndex (pageTable s' ! i) = i * nat (pixelsPerPage cfg) * 4
         \<and> endIndex (pageTable s' ! i)
             = min ((i + 1) * nat (pixelsPerPage cfg)) (width img * height img) * 4
         \<and> (status (pageTable s' ! i) = Inactive \<longleftrightarrow> SwappedOut i \<in> set (newEvents s s'))
         \<and> data (pageTable s' ! i)
             = (if status (pageTable s' ! i) = Active
                then Some (take (endIndex (pageTable s' ! i) - startIndex (pageTable s' ! i))
                             (drop (startIndex (pageTable s' ! i)) (imgdata img)))
                else None)"
    unfolding pt' using pages inact by blast
  have len': "length (pageTable s') = n" using len by (simp add: pt')
  have hits: "pageHits (stats s') = 0" "pageFaults (stats s') = 0"
    using sh by (simp_all add: s'_def shaped_def)
  have lst: "last (events s') = StatsUpdated (stats s')" by (simp add: s'_def)
  show ?thesis
    unfolding n_def[symmetric]
    using st len' pages' hits pre' lst by blast
qed

text \<open>
  A buffer of four bytes with \<open>width = 2\<close> and \<open>height = 1\<close> is stored: two pages are
  created, the second one with an empty slice.
\<close>

theorem storeImage_no_length_check_counterexample:
  "length (imgdata shortImage) \<noteq> width shortImage * height shortImage * 4
   \<and> storeImage (unitConfig 2) readyState (Some shortImage) \<noteq> None
   \<and> map data (pageTable (the (storeImage (unitConfig 2) readyState (Some shortImage))))
       = [Some [1, 2, 3, 4], Some []]
   \<and> pageTable readyState = []"
  by code_simp

text \<open>
  The same buffer stored under a budget of one page: page 0 is swapped out and has no
  data, page 1 is active and its slice, which lies past the end of the buffer, is empty.
\<close>

theorem storeImage_no_length_check_witness:
  "0 < pixelsPerPage (unitConfig 1)
   \<and> storeImage (unitConfig 1) readyState (Some shortImage) \<noteq> None
   \<and> length (pageTable (the (storeImage (unitConfig 1) readyState (Some shortImage)))) = 2
   \<and> map status (pageTable (the (storeImage (unitConfig 1) readyState (Some shortImage))))
       = [Inactive, Active]
   \<and> map data (pageTable (the (storeImage (unitConfig 1) readyState (Some shortImage))))
       = [None, Some []]
   \<and> SwappedOut 0 \<in> set (newEvents readyState
          (the (storeImage (unitConfig 1) readyState (Some shortImage))))
   \<and> SwappedOut 1 \<notin> set (newEvents readyState
          (the (storeImage (unitConfig 1) readyState (Some shortImage))))"
proof -
  have p: "0 < pixelsPerPage (unitConfig 1)" by (simp add: pixelsPerPage_def unitConfig_def)
  have n: "numPages (unitConfig 1) shortImage = 2"
    by (simp add: numPages_def pixelsPerPage_def unitConfig_def shortImage_def)
  have st: "map status (pageTable (the (storeImage (unitConfig 1) readyState (Some shortImage))))
       = [Inactive, Active]" by code_simp
  from storeImage_no_length_check[OF p, of readyState shortImage]
  obtain s' where s': "storeImage (unitConfig 1) readyState (Some shortImage) = Some s'"
    and len: "length (pageTable s') = 2"
    and pg: "\<forall>i < 2.
         (status (pageTable s' ! i) = Inactive \<longleftrightarrow> SwappedOut i \<in> set (newEvents readyState s'))
         \<and> data (pageTable s' ! i)
             = (if status (pageTable s' ! i) = Active
                then Some (take (endIndex (pageTable s' ! i) - startIndex (pageTable s' ! i))
                             (drop (startIndex (pageTable s' ! i)) (imgdata shortImage)))
                else None)"
    and si: "\<forall>i < 2. startIndex (pageTable s' ! i) = i * nat (pixelsPerPage (unitConfig 1)) * 4"
    and ei: "\<forall>i < 2. endIndex (pageTable s' ! i)
               = min ((i + 1) * nat (pixelsPerPage (unitConfig 1)))
                   (width shortImage * height shortImage) * 4"
    unfolding n by blast
  from st have st': "map status (pageTable s') = [Inactive, Active]" by (simp add: s')
  from st' len have s0: "status (pageTable s' ! 0) = Inactive"
    and s1: "status (pageTable s' ! Suc 0) = Active"
    by (auto simp: list_eq_iff_nth_eq)
  from pg[rule_format, of 0] s0 have d0: "data (pageTable s' ! 0) = None"
    and e0: "SwappedOut 0 \<in> set (newEvents readyState s')" by simp_all
  from si[rule_format, of "Suc 0"] have i1: "startIndex (pageTable s' ! Suc 0) = 4"
    by (simp add: pixelsPerPage_def unitConfig_def)
  from ei[rule_format, of "Suc 0"] have j1: "endIndex (pageTable s' ! Suc 0) = 8"
    by (simp add: pixelsPerPage_def unitConfig_def shortImage_def)
  from pg[rule_format, of "Suc 0"] s1 have d1: "data (pageTable s' ! Suc 0) = Some []"
    and e1: "SwappedOut (Suc 0) \<notin> set (newEvents readyState s')"
    by (simp_all add: i1 j1 shortImage_def)
  have dd: "map data (pageTable s') = [None, Some []]"
    using len d0 d1 by (auto simp: list_eq_iff_nth_eq nth_Cons' less_Suc_eq numeral_2_eq_2)
  show ?thesis using p st' dd e0 e1 len by (simp add: s')
qed

subsection \<open>The page that is swapped out\<close>

lemma swapOut_Some:
  "findLRU s = Some l \<Longrightarrow>
     pageTable (swapOutLRUPage cfg s) = (pageTable s)[l := evicted (pageTable s ! l)]
     \<and> last (events (swapOutLRUPage cfg s)) = SwappedOut l"
  by (simp add: swapOutLRUPage_def setPage_def emit_def Let_def evicted_def)

text \<open>
  C4, as the code has it. The scan finds nothing exactly when no page is active.
  Otherwise it finds an active page whose \<open>lastAccessed\<close> is the smallest among the
  active pages and, among those with this smallest value, the one with the smallest id;
  \<open>swapOutLRUPage\<close> swaps out this page and reports it. In particular, with four pages
  stored under a budget of three pages and a clock that advances at every reading, when
  the pages 0, 1, 2, 0 again and 3 are acquired in this order, page 1 (and not page 0)
  is swapped out when page 3 is swapped in; the same holds when the acquisitions start
  with every page swapped out.
\<close>

theorem lru_selection:
  "(findLRU s = None \<longleftrightarrow> (\<forall>j < length (pageTable s). status (pageTable s ! j) \<noteq> Active))
   \<and> (\<forall>l. findLRU s = Some l \<longrightarrow>
         l < length (pageTable s) \<and> status (pageTable s ! l) = Active
         \<and> (\<forall>j < length (pageTable s). status (pageTable s ! j) = Active \<longrightarrow>
               lastAccessed (pageTable s ! l) \<le> lastAccessed (pageTable s ! j)
               \<and> (lastAccessed (pageTable s ! j) = lastAccessed (pageTable s ! l) \<longrightarrow> l \<le> j))
         \<and> pageTable (swapOutLRUPage cfg s) = (pageTable s)[l := evicted (pageTable s ! l)]
         \<and> last (events (swapOutLRUPage cfg s)) = SwappedOut l)
   \<and> newEvents (acquireAll (unitConfig 3) (stored4 3) [0, 1, 2, 0])
                (acquireAll (unitConfig 3) (stored4 3) [0, 1, 2, 0, 3])
       = [SwappedOut 1, SwappedIn 3]
   \<and> newEvents (acquireAll (unitConfig 3) (cold4 3) [0, 1, 2, 0])
                (acquireAll (unitConfig 3) (cold4 3) [0, 1, 2, 0, 3])
       = [SwappedOut 1, SwappedIn 3]"
proof -
  have a: "findLRU s = None \<longleftrightarrow> (\<forall>j < length (pageTable s). status (pageTable s ! j) \<noteq> Active)"
    by (rule findLRU_None)
  have b: "l < length (pageTable s) \<and> status (pageTable s ! l) = Active
         \<and> (\<forall>j < length (pageTable s). status (pageTable s ! j) = Active \<longrightarrow>
               lastAccessed (pageTable s ! l) \<le> lastAccessed (pageTable s ! j)
               \<and> (lastAccessed (pageTable s ! j) = lastAccessed (pageTable s ! l) \<longrightarrow> l \<le> j))
         \<and> pageTable (swapOutLRUPage cfg s) = (pageTable s)[l := evicted (pageTable s ! l)]
         \<and> last (events (swapOutLRUPage cfg s)) = SwappedOut l" if l: "findLRU s = Some l" for l
  proof -
    note f = findLRU_Some[OF l]
    have "lastAccessed (pageTable s ! l) \<le> lastAccessed (pageTable s ! j)
               \<and> (lastAccessed (pageTable s ! j) = lastAccessed (pageTable s ! l) \<longrightarrow> l \<le> j)"
      if "j < length (pageTable s)" "status (pageTable s ! j) = Active" for j
      using f(3)[OF that] by (cases "j < l") auto
    with f(1,2) swapOut_Some[OF l, of cfg] show ?thesis by blast
  qed
  have c: "newEvents (acquireAll (unitConfig 3) (stored4 3) [0, 1, 2, 0])
                (acquireAll (unitConfig 3) (stored4 3) [0, 1, 2, 0, 3])
       = [SwappedOut 1, SwappedIn 3]"
    by code_simp
  have d: "newEvents (acquireAll (unitConfig 3) (cold4 3) [0, 1, 2, 0])
                (acquireAll (unitConfig 3) (cold4 3) [0, 1, 2, 0, 3])
       = [SwappedOut 1, SwappedIn 3]"
    by code_simp
  from a b c d show ?thesis by blast
qed

text \<open>
  Under a budget of two pages the same order of acquisitions swaps out page 2 when page 3
  is swapped in; page 1 has been swapped out one step before, when page 0 came back.
  It is the same when the acquisitions start with every page swapped out.
\<close>

theorem lru_selection_counterexample:
  "newEvents (acquireAll (unitConfig 2) (stored4 2) [0, 1, 2, 0])
             (acquireAll (unitConfig 2) (stored4 2) [0, 1, 2, 0, 3])
     = [SwappedOut 2, SwappedIn 3]
   \<and> newEvents (acquireAll (unitConfig 2) (stored4 2) [0, 1, 2])
               (acquireAll (unitConfig 2) (stored4 2) [0, 1, 2, 0])
     = [SwappedOut 1, SwappedIn 0]
   \<and> newEvents (acquireAll (unitConfig 2) (cold4 2) [0, 1, 2, 0])
               (acquireAll (unitConfig 2) (cold4 2) [0, 1, 2, 0, 3])
     = [SwappedOut 2, SwappedIn 3]
   \<and> newEvents (cold4 2) (acquireAll (unitConfig 2) (cold4 2) [0, 1, 2, 0])
     = [SwappedIn 0, SwappedIn 1, SwappedOut 0, SwappedIn 2, SwappedOut 1, SwappedIn 0]"
  by code_simp

theorem lru_selection_witness:
  "findLRU (acquireAll (unitConfig 3) (stored4 3) [0, 1, 2, 0]) = Some 1
   \<and> (2::nat) < length (pageTable (acquireAll (unitConfig 3) (stored4 3) [0, 1, 2, 0]))
   \<and> status (pageTable (acquireAll (unitConfig 3) (stored4 3) [0, 1, 2, 0]) ! 2) = Active
   \<and> lastAccessed (pageTable (acquireAll (unitConfig 3) (stored4 3) [0, 1, 2, 0]) ! 1)
       \<le> lastAccessed (pageTable (acquireAll (unitConfig 3) (stored4 3) [0, 1, 2, 0]) ! 2)
   \<and> status (pageTable (acquireAll (unitConfig 3) (stored4 3) [0, 1, 2, 0]) ! 1) = Active
   \<and> last (events (swapOutLRUPage (unitConfig 3)
         (acquireAll (unitConfig 3) (stored4 3) [0, 1, 2, 0]))) = SwappedOut 1"
proof -
  have l: "findLRU (acquireAll (unitConfig 3) (stored4 3) [0, 1, 2, 0]) = Some 1" by code_simp
  have j: "(2::nat) < length (pageTable (acquireAll (unitConfig 3) (stored4 3) [0, 1, 2, 0]))"
    by code_simp
  have a: "status (pageTable (acquireAll (unitConfig 3) (stored4 3) [0, 1, 2, 0]) ! 2) = Active"
    by code_simp
  from lru_selection[of "acquireAll (unitConfig 3) (stored4 3) [0, 1, 2, 0]" "unitConfig 3"] l j a
  show ?thesis by blast
qed

subsection \<open>A run over pages that are all active\<close>

lemma untimed_fields [simp]:
  "status (untimed p) = status p" "data (untimed p) = data p"
  "startPixel (untimed p) = startPixel p" "endPixel (untimed p) = endPixel p"
  "startIndex (untimed p) = startIndex p" "endIndex (untimed p) = endIndex p"
  by (simp_all add: untimed_def)

lemma untimed_touch [simp]: "untimed (p\<lparr>lastAccessed := t\<rparr>) = untimed p"
  by (simp add: untimed_def)

lemma untimed_tableD:
  assumes "map untimed a = map untimed b"
  shows "length a = length b"
    and "\<And>i. i < length a \<Longrightarrow> untimed (a ! i) = untimed (b ! i)"
proof -
  show l: "length a = length b" using assms by (metis length_map)
  show "untimed (a ! i) = untimed (b ! i)" if "i < length a" for i
    using that l assms by (metis nth_map)
qed

lemma untimed_eqD:
  assumes "untimed p = untimed q"
  shows "status p = status q" "data p = data q" "startPixel p = startPixel q"
    "startIndex p = startIndex q" "endPixel p = endPixel q" "endIndex p = endIndex q"
  using assms untimed_fields by metis+

lemma applyChunkToOutput_untimed:
  "applyChunkToOutput c out (untimed p) w h rotation = applyChunkToOutput c out p w h rotation"
  by (simp add: applyChunkToOutput_def copyPixel_def[abs_def])

lemma acquire_active:
  assumes "pageId < length (pageTable s)" and "status (pageTable s ! pageId) = Active"
    and "data (pageTable s ! pageId) = Some d"
  shows "pageTable (acquire cfg s pageId)
           = (pageTable s)[pageId := (pageTable s ! pageId)\<lparr>lastAccessed := clock cfg (ticks s)\<rparr>]"
    and "processChunkFn (acquire cfg s pageId) = processChunkFn s"
    and "newEvents s (acquire cfg s pageId) = []"
proof -
  have h: "has s pageId" using assms(1) by (simp add: has_def)
  have g: "getPage (countHit s) pageId = Some (pageTable s ! pageId)"
    using assms(1) by (simp add: getPage_def countHit_def)
  have a: "acquire cfg s pageId
      = tick (setPage pageId ((pageTable s ! pageId)\<lparr>lastAccessed := dateNow cfg (countHit s)\<rparr>) (countHit s))"
    unfolding acquire_def Let_def using h assms(2,3) g by simp
  show "pageTable (acquire cfg s pageId)
           = (pageTable s)[pageId := (pageTable s ! pageId)\<lparr>lastAccessed := clock cfg (ticks s)\<rparr>]"
    by (simp add: a tick_def setPage_def countHit_def dateNow_def)
  show "processChunkFn (acquire cfg s pageId) = processChunkFn s"
    by (simp add: a tick_def setPage_def countHit_def)
  show "newEvents s (acquire cfg s pageId) = []"
    by (simp add: a tick_def setPage_def countHit_def newEvents_def)
qed

lemma acquire_active_untimed:
  assumes "pageId < length (pageTable s)" and "status (pageTable s ! pageId) = Active"
    and "data (pageTable s ! pageId) = Some d"
  shows "map untimed (pageTable (acquire cfg s pageId)) = map untimed (pageTable s)"
  unfolding acquire_active(1)[OF assms]
  by (simp add: map_update list_update_same_conv assms(1))

lemma processPage_active:
  assumes "pageId < length (pageTable s)" and "status (pageTable s ! pageId) = Active"
    and "data (pageTable s ! pageId) = Some d"
  shows "snd (processPage cfg fn adj flt rotation w h (s, out) pageId)
           = applyChunkToOutput (fn d adj flt) out (pageTable s ! pageId) w h rotation"
proof -
  define p' where "p' = (pageTable s ! pageId)\<lparr>lastAccessed := clock cfg (ticks s)\<rparr>"
  have pt: "pageTable (acquire cfg s pageId) = (pageTable s)[pageId := p']"
    unfolding p'_def by (rule acquire_active(1)[OF assms])
  have g: "getPage (acquire cfg s pageId) pageId = Some p'"
    using assms(1) by (simp add: getPage_def pt)
  have d: "data p' = Some d" using assms(3) by (simp add: p'_def)
  have "snd (processPage cfg fn adj flt rotation w h (s, out) pageId)
           = applyChunkToOutput (fn d adj flt) out p' w h rotation"
    unfolding processPage_def Let_def by (simp add: g d)
  also have "\<dots> = applyChunkToOutput (fn d adj flt) out (untimed p') w h rotation"
    by (simp only: applyChunkToOutput_untimed)
  also have "untimed p' = untimed (pageTable s ! pageId)" by (simp add: p'_def)
  finally show ?thesis by (simp only: applyChunkToOutput_untimed)
qed

lemma processPages_active:
  assumes "\<forall>i < length (pageTable s). status (pageTable s ! i) = Active \<and> data (pageTable s ! i) \<noteq> None"
    and "\<forall>i \<in> set ids. i < length (pageTable s)"
  shows "map untimed (pageTable (fst (processPages cfg fn adj flt rotation w h (s, out) ids)))
           = map untimed (pageTable s)
       \<and> processChunkFn (fst (processPages cfg fn adj flt rotation w h (s, out) ids)) = processChunkFn s
       \<and> snd (processPages cfg fn adj flt rotation w h (s, out) ids)
           = foldl (\<lambda>acc i. applyChunkToOutput (fn (the (data (pageTable s ! i))) adj flt) acc
                            (untimed (pageTable s ! i)) w h rotation) out ids"
  using assms
proof (induction ids arbitrary: s out)
  case Nil
  then show ?case by (simp add: processPages_def)
next
  case (Cons a ids)
  from Cons.prems have a: "a < length (pageTable s)" "status (pageTable s ! a) = Active"
    by simp_all
  from Cons.prems a obtain d where d: "data (pageTable s ! a) = Some d" by auto
  define s' where "s' = acquire cfg s a"
  define out' where "out' = applyChunkToOutput (fn d adj flt) out (pageTable s ! a) w h rotation"
  have step: "processPage cfg fn adj flt rotation w h (s, out) a = (s', out')"
    using fst_processPage[of cfg fn adj flt rotation w h "(s, out)" a]
      processPage_active[OF a d, of cfg fn adj flt rotation w h out]
    by (simp add: s'_def out'_def prod_eq_iff)
  have u: "map untimed (pageTable s') = map untimed (pageTable s)"
    unfolding s'_def by (rule acquire_active_untimed[OF a d])
  note ud = untimed_tableD[OF u]
  have fn': "processChunkFn s' = processChunkFn s"
    unfolding s'_def by (rule acquire_active(2)[OF a d])
  have p1: "\<forall>i < length (pageTable s'). status (pageTable s' ! i) = Active \<and> data (pageTable s' ! i) \<noteq> None"
  proof (intro allI impI)
    fix i assume i: "i < length (pageTable s')"
    from ud(2)[OF i] have "status (pageTable s' ! i) = status (pageTable s ! i)"
      "data (pageTable s' ! i) = data (pageTable s ! i)" by (rule untimed_eqD)+
    with Cons.prems(1) i ud(1) show "status (pageTable s' ! i) = Active \<and> data (pageTable s' ! i) \<noteq> None"
      by simp
  qed
  have p2: "\<forall>i \<in> set ids. i < length (pageTable s')" using Cons.prems(2) ud(1) by simp
  note IH = Cons.IH[OF p1 p2, of out']
  have cong: "foldl (\<lambda>acc i. applyChunkToOutput (fn (the (data (pageTable s' ! i))) adj flt) acc
                            (untimed (pageTable s' ! i)) w h rotation) out' ids
      = foldl (\<lambda>acc i. applyChunkToOutput (fn (the (data (pageTable s ! i))) adj flt) acc
                            (untimed (pageTable s ! i)) w h rotation) out' ids"
  proof (rule foldl_cong[OF refl refl])
    fix o' i assume "i \<in> set ids"
    with p2 have i: "i < length (pageTable s')" by simp
    from ud(2)[OF i] have "data (pageTable s' ! i) = data (pageTable s ! i)" by (rule untimed_eqD)
    with ud(2)[OF i]
    show "applyChunkToOutput (fn (the (data (pageTable s' ! i))) adj flt) o'
                            (untimed (pageTable s' ! i)) w h rotation
        = applyChunkToOutput (fn (the (data (pageTable s ! i))) adj flt) o'
                            (untimed (pageTable s ! i)) w h rotation" by simp
  qed
  have unf: "processPages cfg fn adj flt rotation w h (s, out) (a # ids)
      = processPages cfg fn adj flt rotation w h (s', out') ids"
    by (simp add: processPages_def step)
  show ?case
    unfolding unf using IH cong u fn'
    by (simp add: out'_def d applyChunkToOutput_untimed)
qed

subsection \<open>Copying without rotation\<close>

lemma writeByte_nat: "writeByte xs (int i) v = (if i < length xs then xs[i := v] else xs)"
  by (simp add: writeByte_def)

lemma length_writeByte [simp]: "length (writeByte xs i v) = length xs"
  by (simp add: writeByte_def)

lemma update_third: "(A @ B @ C)[length A + length B := v] = A @ B @ C[0 := v]"
  by (simp add: list_update_append)

lemma copy_prefix:
  assumes "m \<le> length chunk" and "start + length chunk \<le> length out"
  shows "foldl (\<lambda>acc i. writeByte acc (int (start + i)) (chunk ! i)) out [0..<m]
           = take start out @ take m chunk @ drop (start + m) out"
  using assms(1)
proof (induction m)
  case 0
  then show ?case by simp
next
  case (Suc m)
  define F where "F = (\<lambda>acc i. writeByte acc (int (start + i)) (chunk ! i))"
  from Suc have m: "m < length chunk"
    and IH: "foldl F out [0..<m] = take start out @ take m chunk @ drop (start + m) out"
    by (simp_all add: F_def)
  have lt: "start + m < length out" using m assms(2) by simp
  have d: "drop (start + m) out = out ! (start + m) # drop (Suc (start + m)) out"
    using lt by (simp add: Cons_nth_drop_Suc)
  have t: "take (Suc m) chunk = take m chunk @ [chunk ! m]"
    using m by (simp add: take_Suc_conv_app_nth)
  have l1: "length (take start out) = start" using lt by simp
  have l2: "length (take m chunk) = m" using m by simp
  have len: "length (take start out @ take m chunk @ drop (start + m) out) = length out"
    using lt l1 l2 by simp
  have "foldl F out [0..<Suc m] = F (foldl F out [0..<m]) m" by simp
  also have "\<dots> = writeByte (take start out @ take m chunk @ drop (start + m) out)
                       (int (start + m)) (chunk ! m)"
    unfolding IH by (simp only: F_def)
  also have "\<dots> = (take start out @ take m chunk @ drop (start + m) out)[start + m := chunk ! m]"
    using lt len by (simp only: writeByte_nat if_True)
  also have "\<dots> = take start out @ take m chunk @ (drop (start + m) out)[0 := chunk ! m]"
    using update_third[of "take start out" "take m chunk" "drop (start + m) out" "chunk ! m"]
    unfolding l1 l2 .
  also have "\<dots> = take start out @ take (Suc m) chunk @ drop (start + Suc m) out"
    by (simp add: d t)
  finally show ?case unfolding F_def .
qed

lemma applyChunkToOutput_0:
  assumes "startIndex p + length chunk \<le> length out"
  shows "applyChunkToOutput chunk out p w h 0
           = take (startIndex p) out @ chunk @ drop (startIndex p + length chunk) out"
  using copy_prefix[OF le_refl assms] by (simp add: applyChunkToOutput_def)

lemma processChunk_identity [simp]: "processChunk rnd d identityAdjustments ''none'' = d"
  by (simp add: processChunk_def identityAdjustments_def)

lemma numPages_less_iff:
  assumes "0 < pixelsPerPage cfg"
  shows "i < numPages cfg img \<longleftrightarrow> i * nat (pixelsPerPage cfg) < width img * height img"
proof -
  define N where "N = width img * height img"
  define P where "P = nat (pixelsPerPage cfg)"
  have P: "0 < P" "pixelsPerPage cfg = int P" using assms by (simp_all add: P_def)
  have "i < numPages cfg img \<longleftrightarrow> int i < \<lceil>(of_nat N :: rat) / of_nat P\<rceil>"
    unfolding numPages_def N_def[symmetric] P(2) by (simp add: nat_less_iff zless_nat_eq_int_zless)
  also have "\<dots> \<longleftrightarrow> (of_nat i :: rat) < of_nat N / of_nat P"
    by (simp add: less_ceiling_iff)
  also have "\<dots> \<longleftrightarrow> (of_nat i :: rat) * of_nat P < of_nat N"
    using P(1) by (simp add: pos_less_divide_eq)
  also have "\<dots> \<longleftrightarrow> i * P < N"
    by (metis of_nat_less_iff of_nat_mult)
  finally show ?thesis by (simp add: N_def P_def)
qed

lemma numPages_covers:
  assumes "0 < pixelsPerPage cfg"
  shows "width img * height img \<le> numPages cfg img * nat (pixelsPerPage cfg)"
  using numPages_less_iff[OF assms, of "numPages cfg img" img] by simp

lemma newPage_untimed [simp]: "untimed (newPage cfg img stamp i) = newPage cfg img 0 i"
  by (simp add: untimed_def newPage_def Let_def)

lemma newPage_fields:
  "data (newPage cfg img stamp i)
     = Some (take (min ((i + 1) * nat (pixelsPerPage cfg)) (width img * height img) * 4
                    - i * nat (pixelsPerPage cfg) * 4)
               (drop (i * nat (pixelsPerPage cfg) * 4) (imgdata img)))"
  "status (newPage cfg img stamp i) = Active"
  "startIndex (newPage cfg img stamp i) = i * nat (pixelsPerPage cfg) * 4"
  "startPixel (newPage cfg img stamp i) = i * nat (pixelsPerPage cfg)"
  by (simp_all add: newPage_def Let_def)

lemma residentD:
  assumes "resident cfg img s"
  shows "length (pageTable s) = numPages cfg img"
    and "\<And>i. i < numPages cfg img \<Longrightarrow> untimed (pageTable s ! i) = newPage cfg img 0 i"
    and "\<And>i. i < numPages cfg img \<Longrightarrow> status (pageTable s ! i) = Active"
    and "\<And>i. i < numPages cfg img \<Longrightarrow> data (pageTable s ! i) = data (newPage cfg img 0 i)"
proof -
  from assms have m: "map untimed (pageTable s) = map (newPage cfg img 0) [0..<numPages cfg img]"
    by (simp add: resident_def)
  show l: "length (pageTable s) = numPages cfg img"
    using arg_cong[OF m, of length] by simp
  show u: "untimed (pageTable s ! i) = newPage cfg img 0 i" if "i < numPages cfg img" for i
  proof -
    have "map untimed (pageTable s) ! i = untimed (pageTable s ! i)" using that l by simp
    moreover have "map (newPage cfg img 0) [0..<numPages cfg img] ! i = newPage cfg img 0 i"
      using that by (subst nth_map_upt) simp_all
    ultimately show ?thesis using m by simp
  qed
  show "status (pageTable s ! i) = Active" if "i < numPages cfg img" for i
    using u[OF that] untimed_fields(1)[of "pageTable s ! i"] by (simp add: newPage_fields)
  show "data (pageTable s ! i) = data (newPage cfg img 0 i)" if "i < numPages cfg img" for i
    using u[OF that] untimed_fields(2)[of "pageTable s ! i"] by simp
qed

lemma copy_pages:
  assumes P: "0 < pixelsPerPage cfg"
    and len: "length (imgdata img) = width img * height img * 4"
    and j: "j \<le> numPages cfg img"
  shows "foldl (\<lambda>acc i. applyChunkToOutput (the (data (newPage cfg img 0 i))) acc
                          (newPage cfg img 0 i) w h 0)
           (replicate (width img * height img * 4) 0) [0..<j]
         = take (min (j * nat (pixelsPerPage cfg)) (width img * height img) * 4) (imgdata img)
           @ replicate (width img * height img * 4
                        - min (j * nat (pixelsPerPage cfg)) (width img * height img) * 4) 0"
  using j
proof (induction j)
  case 0
  then show ?case by simp
next
  case (Suc j)
  define N where "N = width img * height img"
  define Q where "Q = nat (pixelsPerPage cfg)"
  define dat where "dat = imgdata img"
  define F where "F = (\<lambda>acc i. applyChunkToOutput (the (data (newPage cfg img 0 i))) acc
                          (newPage cfg img 0 i) w h 0)"
  define e where "e = min ((j + 1) * Q) N"
  from Suc.prems have jn: "j < numPages cfg img" by simp
  then have jq: "j * Q < N" using numPages_less_iff[OF P] by (simp add: Q_def N_def)
  have ld: "length dat = N * 4" using len by (simp add: dat_def N_def)
  have ej: "j * Q \<le> e" and eN: "e \<le> N" using jq by (simp_all add: e_def)
  have IH: "foldl F (replicate (N * 4) 0) [0..<j] = take (j * Q * 4) dat @ replicate (N * 4 - j * Q * 4) 0"
    using Suc.IH jn jq unfolding F_def N_def Q_def dat_def by (simp add: min_def)
  define acc where "acc = take (j * Q * 4) dat @ replicate (N * 4 - j * Q * 4) (0::byte)"
  define chunk where "chunk = take (e * 4 - j * Q * 4) (drop (j * Q * 4) dat)"
  have pd: "the (data (newPage cfg img 0 j)) = chunk"
    by (simp add: newPage_fields chunk_def e_def Q_def N_def dat_def)
  have ps: "startIndex (newPage cfg img 0 j) = j * Q * 4"
    by (simp add: newPage_fields Q_def)
  have lc: "length chunk = e * 4 - j * Q * 4"
    using ld eN ej by (simp add: chunk_def)
  have la: "length acc = N * 4" using ld jq by (simp add: acc_def)
  have fit: "startIndex (newPage cfg img 0 j) + length chunk \<le> length acc"
    using ej eN by (simp add: ps lc la)
  have "foldl F (replicate (N * 4) 0) [0..<Suc j] = F acc j"
    by (simp add: IH acc_def)
  also have "\<dots> = applyChunkToOutput chunk acc (newPage cfg img 0 j) w h 0"
    by (simp add: F_def pd)
  also have "\<dots> = take (j * Q * 4) acc @ chunk @ drop (j * Q * 4 + length chunk) acc"
    using applyChunkToOutput_0[OF fit] by (simp add: ps)
  also have "take (j * Q * 4) acc = take (j * Q * 4) dat"
    using ld jq by (simp add: acc_def)
  also have "j * Q * 4 + length chunk = e * 4" using ej by (simp add: lc)
  also have "drop (e * 4) acc = replicate (N * 4 - e * 4) 0"
    using ld jq ej eN by (simp add: acc_def)
  also have "take (j * Q * 4) dat @ chunk @ replicate (N * 4 - e * 4) 0
      = take (e * 4) dat @ replicate (N * 4 - e * 4) 0"
  proof -
    have "take (e * 4) dat = take (j * Q * 4 + (e * 4 - j * Q * 4)) dat" using ej by simp
    also have "\<dots> = take (j * Q * 4) dat @ chunk"
      unfolding chunk_def by (rule take_add)
    finally show ?thesis by simp
  qed
  finally show ?case
    unfolding F_def N_def Q_def dat_def e_def by simp
qed

lemma copy_all_pages:
  assumes P: "0 < pixelsPerPage cfg"
    and len: "length (imgdata img) = width img * height img * 4"
  shows "foldl (\<lambda>acc i. applyChunkToOutput (the (data (newPage cfg img 0 i))) acc
                          (newPage cfg img 0 i) w h 0)
           (replicate (width img * height img * 4) 0) [0..<numPages cfg img]
         = imgdata img"
  using copy_pages[OF P len le_refl, of w h] numPages_covers[OF P, of img] len
  by (simp add: min_def)

subsection \<open>The run that changes nothing\<close>

lemma storePage_fn [simp]: "processChunkFn (storePage cfg img s i) = processChunkFn s"
  by (simp add: storePage_def Let_def tick_def)

lemma store_loop_fn:
  "processChunkFn (foldl (storePage cfg img) s0 [0..<n]) = processChunkFn s0"
  by (induction n) simp_all

lemma store_active_resident:
  assumes P: "0 < pixelsPerPage cfg"
    and st: "storeImage cfg s (Some img) = Some s1"
    and act: "\<forall>i < length (pageTable s1). status (pageTable s1 ! i) = Active"
  shows "resident cfg img s1" and "processChunkFn s1 = processChunkFn s"
proof -
  define n where "n = numPages cfg img"
  define s0 where "s0 = foldl (storePage cfg img) (storeBase cfg img s) [0..<n]"
  from st have s1: "s1 = updateMemoryStats s0"
    by (simp add: storeImage_loop[OF P] s0_def n_def)
  have "shaped cfg img (storeBase cfg img s)"
    by (simp add: shaped_def storeBase_fields)
  from shaped_loop[OF this storeBase_fields(1), of n]
  have sh: "shaped cfg img s0" and len: "length (pageTable s0) = n"
    by (simp_all add: s0_def)
  have "map untimed (pageTable s0) = map (newPage cfg img 0) [0..<n]"
  proof (rule nth_equalityI)
    show "length (map untimed (pageTable s0)) = length (map (newPage cfg img 0) [0..<n])"
      by (simp add: len)
  next
    fix i assume "i < length (map untimed (pageTable s0))"
    then have i: "i < n" by (simp add: len)
    from sh i len obtain stamp where
      c: "pageTable s0 ! i = newPage cfg img stamp i
       \<or> pageTable s0 ! i = evicted (newPage cfg img stamp i)"
      unfolding shaped_def by auto
    from act i len have "status (pageTable s0 ! i) = Active" by (simp add: s1)
    with c have "pageTable s0 ! i = newPage cfg img stamp i"
      by (auto simp: evicted_def)
    then show "map untimed (pageTable s0) ! i = map (newPage cfg img 0) [0..<n] ! i"
      using i len by simp
  qed
  then show "resident cfg img s1" by (simp add: resident_def s1 n_def)
  show "processChunkFn s1 = processChunkFn s"
    by (simp add: s1 s0_def store_loop_fn storeBase_fields)
qed

lemma store_fits:
  assumes P: "0 < pixelsPerPage cfg" and ex: "exactSums cfg (numPages cfg img)"
    and fit: "numPages cfg img \<le> capacity cfg"
  shows "\<exists>s1. storeImage cfg s (Some img) = Some s1
           \<and> (\<forall>i < length (pageTable s1). status (pageTable s1 ! i) = Active)"
proof -
  define n where "n = numPages cfg img"
  have k: "evictions cfg n = 0"
    using evictions_closed[OF pageSize_pos[OF P], of n] fit ex by (simp add: n_def)
  define s1 where "s1 = updateMemoryStats (storedState cfg img (storeBase cfg img s) n)"
  have st: "storeImage cfg s (Some img) = Some s1"
    unfolding s1_def n_def using k by (simp add: storeImage_closed[OF P] n_def)
  have len: "length (pageTable s1) = n" by (simp add: s1_def)
  have "\<And>i. i < n \<Longrightarrow> status (pageTable s1 ! i) = Active"
    by (simp add: s1_def storedState_nth k pageAt_status)
  with st len show ?thesis by simp
qed

lemma run_resident:
  assumes r: "resident cfg img s" and fn: "processChunkFn s = Some (processChunk rnd)"
    and P: "0 < pixelsPerPage cfg"
    and len: "length (imgdata img) = width img * height img * 4"
    and w: "0 < width img" and h: "0 < height img"
  shows "snd (processImageChunks cfg s (Some img) identityAdjustments ''none'' 0) = Inr (Some img)"
    and "resident cfg img (fst (processImageChunks cfg s (Some img) identityAdjustments ''none'' 0))"
    and "processChunkFn (fst (processImageChunks cfg s (Some img) identityAdjustments ''none'' 0))
           = Some (processChunk rnd)"
proof -
  note rd = residentD[OF r]
  define n where "n = numPages cfg img"
  define out0 where "out0 = replicate (width img * height img * 4) (0::byte)"
  define res where "res = processPages cfg (processChunk rnd) identityAdjustments ''none'' 0
      (width img) (height img) (s, out0) [0..<n]"
  have a1: "\<forall>i < length (pageTable s). status (pageTable s ! i) = Active \<and> data (pageTable s ! i) \<noteq> None"
    using rd by (simp add: newPage_fields)
  have a2: "\<forall>i \<in> set [0..<n]. i < length (pageTable s)" using rd(1) by (simp add: n_def)
  note pa = processPages_active[OF a1 a2, of cfg "processChunk rnd" identityAdjustments "''none''" 0
      "width img" "height img" out0, folded res_def]
  have out: "snd res = imgdata img"
  proof -
    have "snd res = foldl (\<lambda>acc i. applyChunkToOutput (the (data (newPage cfg img 0 i))) acc
                          (newPage cfg img 0 i) (width img) (height img) 0) out0 [0..<n]"
      unfolding conjunct2[OF conjunct2[OF pa]]
    proof (rule foldl_cong[OF refl refl])
      fix acc i assume "i \<in> set [0..<n]"
      then have i: "i < numPages cfg img" by (simp add: n_def)
      show "applyChunkToOutput (processChunk rnd (the (data (pageTable s ! i))) identityAdjustments ''none'')
              acc (untimed (pageTable s ! i)) (width img) (height img) 0
          = applyChunkToOutput (the (data (newPage cfg img 0 i))) acc
              (newPage cfg img 0 i) (width img) (height img) 0"
        by (simp add: rd(2)[OF i] rd(4)[OF i])
    qed
    also have "\<dots> = imgdata img"
      unfolding out0_def n_def by (rule copy_all_pages[OF P len])
    finally show ?thesis .
  qed
  have run: "processImageChunks cfg s (Some img) identityAdjustments ''none'' 0
      = (updateMemoryStats (fst res),
         Inr (Some \<lparr> width = width img, height = height img, imgdata = snd res \<rparr>))"
    unfolding processImageChunks_def Let_def res_def out0_def n_def
    using fn w h rd(1) by simp
  show "snd (processImageChunks cfg s (Some img) identityAdjustments ''none'' 0) = Inr (Some img)"
    by (simp add: run out)
  have "map untimed (pageTable (fst res)) = map untimed (pageTable s)"
    using pa by simp
  then show "resident cfg img (fst (processImageChunks cfg s (Some img) identityAdjustments ''none'' 0))"
    using r by (simp add: run resident_def)
  show "processChunkFn (fst (processImageChunks cfg s (Some img) identityAdjustments ''none'' 0))
           = Some (processChunk rnd)"
    using pa fn by (simp add: run)
qed

text \<open>
  C2, as the code has it. Let a page hold at least one pixel and let the image be well
  formed (a buffer of \<open>width * height * 4\<close> bytes, both sides positive). When the image
  has been stored and every page of the table is active, none having been swapped out,
  the table holds every page of the image with its slice of the buffer. From every state
  in which it does, the run with brightness 0, contrast 0, filter \<open>none\<close> and rotation 0
  returns an image equal to the source, byte for byte, and leaves the table as it was up
  to the time stamps, so that the next run returns the source again. Every page is
  active after \<open>storeImage\<close> when the pages of the image fit the budget and their memory
  usage is summed up without rounding.
\<close>

theorem identity_transform:
  assumes "0 < pixelsPerPage cfg"
    and "length (imgdata img) = width img * height img * 4"
    and "0 < width img" and "0 < height img"
  shows "(storeImage cfg s (Some img) = Some s1
            \<and> (\<forall>i < length (pageTable s1). status (pageTable s1 ! i) = Active)
          \<longrightarrow> resident cfg img s1 \<and> processChunkFn s1 = processChunkFn s)
       \<and> (resident cfg img t \<and> processChunkFn t = Some (processChunk rnd)
          \<longrightarrow> snd (processImageChunks cfg t (Some img) identityAdjustments ''none'' 0)
                = Inr (Some img)
              \<and> resident cfg img
                  (fst (processImageChunks cfg t (Some img) identityAdjustments ''none'' 0))
              \<and> processChunkFn
                  (fst (processImageChunks cfg t (Some img) identityAdjustments ''none'' 0))
                = Some (processChunk rnd))
       \<and> (exactSums cfg (numPages cfg img) \<and> numPages cfg img \<le> capacity cfg
          \<longrightarrow> (\<exists>s2. storeImage cfg s (Some img) = Some s2
                 \<and> (\<forall>i < length (pageTable s2). status (pageTable s2 ! i) = Active)))"
proof (intro conjI impI)
  assume a: "storeImage cfg s (Some img) = Some s1
            \<and> (\<forall>i < length (pageTable s1). status (pageTable s1 ! i) = Active)"
  then have st: "storeImage cfg s (Some img) = Some s1"
    and act: "\<forall>i < length (pageTable s1). status (pageTable s1 ! i) = Active" by simp_all
  show "resident cfg img s1" by (rule store_active_resident(1)[OF assms(1) st act])
  show "processChunkFn s1 = processChunkFn s" by (rule store_active_resident(2)[OF assms(1) st act])
next
  assume a: "resident cfg img t \<and> processChunkFn t = Some (processChunk rnd)"
  then have r: "resident cfg img t" and f: "processChunkFn t = Some (processChunk rnd)"
    by simp_all
  note rr = run_resident[OF r f assms]
  show "snd (processImageChunks cfg t (Some img) identityAdjustments ''none'' 0) = Inr (Some img)"
    by (rule rr(1))
  show "resident cfg img
          (fst (processImageChunks cfg t (Some img) identityAdjustments ''none'' 0))"
    by (rule rr(2))
  show "processChunkFn (fst (processImageChunks cfg t (Some img) identityAdjustments ''none'' 0))
          = Some (processChunk rnd)"
    by (rule rr(3))
next
  assume "exactSums cfg (numPages cfg img) \<and> numPages cfg img \<le> capacity cfg"
  then show "\<exists>s2. storeImage cfg s (Some img) = Some s2
                 \<and> (\<forall>i < length (pageTable s2). status (pageTable s2 ! i) = Active)"
    using store_fits[OF assms(1), of img s] by simp
qed

text \<open>
  Four pages under a budget of two: every page is swapped in as zeros before it is
  copied, and the run that should change nothing returns sixteen zeros.
\<close>

theorem identity_transform_counterexample:
  "snd (processImageChunks (unitConfig 2) (stored4 2) (Some strip4) identityAdjustments ''none'' 0)
     = Inr (Some \<lparr> width = 4, height = 1,
                   imgdata = [0, 0, 0, 0, 0, 0, 0, 0, 0, 0, 0, 0, 0, 0, 0, 0] \<rparr>)
   \<and> imgdata strip4 = [1, 2, 3, 4, 5, 6, 7, 8, 9, 10, 11, 12, 13, 14, 15, 16]
   \<and> \<not> Option.is_none (storeImage (unitConfig 2) readyState (Some strip4))"
  by code_simp

text \<open>
  The four pages of \<open>strip4\<close> under a budget of four pages: all of them are active after
  the image has been stored, and the run returns the sixteen bytes of the source.
\<close>

theorem identity_transform_witness:
  "0 < pixelsPerPage (unitConfig 4)
   \<and> length (imgdata strip4) = width strip4 * height strip4 * 4
   \<and> 0 < width strip4 \<and> 0 < height strip4
   \<and> exactSums (unitConfig 4) (numPages (unitConfig 4) strip4)
   \<and> numPages (unitConfig 4) strip4 \<le> capacity (unitConfig 4)
   \<and> storeImage (unitConfig 4) readyState (Some strip4) = Some (stored4 4)
   \<and> map status (pageTable (stored4 4)) = [Active, Active, Active, Active]
   \<and> resident (unitConfig 4) strip4 (stored4 4)
   \<and> processChunkFn (stored4 4) = Some (processChunk exact)
   \<and> snd (processImageChunks (unitConfig 4) (stored4 4) (Some strip4) identityAdjustments ''none'' 0)
       = Inr (Some strip4)
   \<and> imgdata strip4 = [1, 2, 3, 4, 5, 6, 7, 8, 9, 10, 11, 12, 13, 14, 15, 16]"
proof -
  have p: "0 < pixelsPerPage (unitConfig 4)" by (simp add: pixelsPerPage_def unitConfig_def)
  have n: "numPages (unitConfig 4) strip4 \<le> capacity (unitConfig 4)"
    by (simp add: numPages_def capacity_def pixelsPerPage_def unitConfig_def strip4_def)
  have x: "exactSums (unitConfig 4) (numPages (unitConfig 4) strip4)"
    by (simp add: exactSums_def unitConfig_def exact_def)
  have l: "length (imgdata strip4) = width strip4 * height strip4 * 4" by (simp add: strip4_def)
  have w: "0 < width strip4" and h: "0 < height strip4" by (simp_all add: strip4_def)
  have f: "processChunkFn readyState = Some (processChunk exact)"
    by (simp add: readyState_def registerChunkProcessor_def)
  have m: "map status (pageTable (stored4 4)) = [Active, Active, Active, Active]" by code_simp
  then have a: "\<forall>i < length (pageTable (stored4 4)). status (pageTable (stored4 4) ! i) = Active"
    by (auto simp: list_eq_iff_nth_eq nth_Cons' split: if_splits)
  have d: "imgdata strip4 = [1, 2, 3, 4, 5, 6, 7, 8, 9, 10, 11, 12, 13, 14, 15, 16]"
    by (simp add: strip4_def)
  note t = identity_transform[OF p l w h, of readyState "stored4 4" "stored4 4" exact]
  from t x n obtain s2 where "storeImage (unitConfig 4) readyState (Some strip4) = Some s2"
    by blast
  then have st: "storeImage (unitConfig 4) readyState (Some strip4) = Some (stored4 4)"
    by (simp add: stored4_def)
  from t st a f have r: "resident (unitConfig 4) strip4 (stored4 4)"
    and g: "processChunkFn (stored4 4) = Some (processChunk exact)" by simp_all
  from t r g have "snd (processImageChunks (unitConfig 4) (stored4 4) (Some strip4)
      identityAdjustments ''none'' 0) = Inr (Some strip4)" by blast
  with p l w h x n st m r g d show ?thesis by blast
qed

subsection \<open>Rotation by 90 degrees: the index\<close>

lemma rot90_less:
  assumes "p < w * h"
  shows "rot90 w h p < w * h"
proof -
  have w: "0 < w" and h: "0 < h" using assms by (auto intro: Nat.gr0I)
  have x: "p mod w < w" using w by simp
  have "rot90 w h p \<le> (p mod w) * h + (h - 1)" by (simp add: rot90_def)
  also have "\<dots> < (p mod w) * h + h" using h by simp
  also have "\<dots> = (Suc (p mod w)) * h" by simp
  also have "\<dots> \<le> w * h" using x by (intro mult_le_mono1) simp
  finally show ?thesis .
qed

lemma rot90_div_mod:
  assumes "p < w * h"
  shows "rot90 w h p mod h = h - 1 - p div w" and "rot90 w h p div h = p mod w"
proof -
  have h: "0 < h" using assms by (auto intro: Nat.gr0I)
  have lt: "h - 1 - p div w < h" using h by simp
  show "rot90 w h p mod h = h - 1 - p div w"
    unfolding rot90_def using lt by simp
  show "rot90 w h p div h = p mod w"
    unfolding rot90_def using lt h by simp
qed

lemma rot90_twice:
  assumes "p < w * h"
  shows "rot90 h w (rot90 w h p) = w * h - 1 - p"
proof -
  have w: "0 < w" and h: "0 < h" using assms by (auto intro: Nat.gr0I)
  define x where "x = p mod w"
  define y where "y = p div w"
  have p: "p = y * w + x" by (simp add: x_def y_def)
  have x: "x < w" using w by (simp add: x_def)
  have y: "y < h" using assms w unfolding y_def by (simp add: less_mult_imp_div_less mult.commute)
  have "rot90 h w (rot90 w h p) = (h - 1 - y) * w + (w - 1 - x)"
    unfolding rot90_def[of h w] rot90_div_mod[OF assms] by (simp add: x_def y_def)
  also have "\<dots> = w * h - 1 - p"
  proof -
    have a: "int ((h - 1 - y) * w + (w - 1 - x)) = (int h - 1 - int y) * int w + (int w - 1 - int x)"
      using x y by (simp add: of_nat_diff)
    have b: "int (w * h - 1 - p) = int w * int h - 1 - int p"
      using assms by (simp add: of_nat_diff)
    have c: "int p = int y * int w + int x" by (simp add: p)
    have "int ((h - 1 - y) * w + (w - 1 - x)) = int (w * h - 1 - p)"
      unfolding a b c by (simp add: algebra_simps)
    then show ?thesis by (simp only: of_nat_eq_iff)
  qed
  finally show ?thesis .
qed

lemma rot90_inj:
  assumes "p < w * h" and "q < w * h" and "rot90 w h p = rot90 w h q"
  shows "p = q"
proof -
  have "w * h - 1 - p = w * h - 1 - q"
    using rot90_twice[OF assms(1)] rot90_twice[OF assms(2)] assms(3) by simp
  with assms(1,2) show ?thesis by linarith
qed

lemma rotatedIndex_90:
  assumes "p < w * h"
  shows "rotatedIndex w h 90 p = Some (int (rot90 w h p * 4))"
proof -
  have w: "0 < w" and h: "0 < h" using assms by (auto intro: Nat.gr0I)
  have y: "p div w < h" using assms w by (simp add: less_mult_imp_div_less mult.commute)
  then have e: "int h - 1 - int (p div w) = int (h - 1 - p div w)" by (simp add: of_nat_diff)
  have "rotatedIndex w h 90 p
      = Some ((int (p mod w) * int h + (int h - 1 - int (p div w))) * 4)"
    using w by (simp add: rotatedIndex_def Let_def)
  also have "(int (p mod w) * int h + (int h - 1 - int (p div w))) = int (rot90 w h p)"
    unfolding e rot90_def by simp
  finally show ?thesis by simp
qed

subsection \<open>Rotation by 90 degrees: the pixels\<close>

lemma put4_nth:
  assumes "a + 3 < length acc" and "j < length acc"
  shows "acc[a := v0, a + 1 := v1, a + 2 := v2, a + 3 := v3] ! j
           = (if j = a then v0 else if j = a + 1 then v1 else if j = a + 2 then v2
              else if j = a + 3 then v3 else acc ! j)"
  using assms by (simp add: nth_list_update)

lemma copyPixel_90:
  assumes p: "p < w * h" and la: "length acc = w * h * 4" and ld: "length dat = w * h * 4"
    and pg: "startPixel pg = 0"
  shows "copyPixel dat pg w h 90 acc p
           = acc[rot90 w h p * 4 := dat ! (p * 4), rot90 w h p * 4 + 1 := dat ! (p * 4 + 1),
                 rot90 w h p * 4 + 2 := dat ! (p * 4 + 2), rot90 w h p * 4 + 3 := dat ! (p * 4 + 3)]"
proof -
  define a where "a = rot90 w h p * 4"
  have r: "rot90 w h p < w * h" by (rule rot90_less[OF p])
  then have a3: "a + 3 < w * h * 4" by (simp add: a_def)
  have i1: "int a + 1 = int (a + 1)" and i2: "int a + 2 = int (a + 2)"
    and i3: "int a + 3 = int (a + 3)" by simp_all
  have rd: "\<And>c. c < 4 \<Longrightarrow> readByte dat (p * 4 + c) = dat ! (p * 4 + c)"
    using p ld by (simp add: readByte_def)
  have "copyPixel dat pg w h 90 acc p
      = writeByte (writeByte (writeByte (writeByte acc (int a) (readByte dat (p * 4)))
           (int a + 1) (readByte dat (p * 4 + 1)))
           (int a + 2) (readByte dat (p * 4 + 2)))
           (int a + 3) (readByte dat (p * 4 + 3))"
    unfolding copyPixel_def pg using rotatedIndex_90[OF p] by (simp add: Let_def a_def)
  also have "\<dots> = acc[a := dat ! (p * 4), a + 1 := dat ! (p * 4 + 1),
                 a + 2 := dat ! (p * 4 + 2), a + 3 := dat ! (p * 4 + 3)]"
    unfolding i1 i2 i3 writeByte_nat using a3 la rd[of 0] rd[of 1] rd[of 2] rd[of 3] by simp
  finally show ?thesis unfolding a_def .
qed

lemma copyPixel_90_nth:
  assumes p: "p < w * h" and la: "length acc = w * h * 4" and ld: "length dat = w * h * 4"
    and pg: "startPixel pg = 0" and q: "q < w * h" and c: "c < 4"
  shows "copyPixel dat pg w h 90 acc p ! (rot90 w h q * 4 + c)
           = (if q = p then dat ! (p * 4 + c) else acc ! (rot90 w h q * 4 + c))"
    and "length (copyPixel dat pg w h 90 acc p) = w * h * 4"
proof -
  have rp: "rot90 w h p < w * h" by (rule rot90_less[OF p])
  have rq: "rot90 w h q < w * h" by (rule rot90_less[OF q])
  have a3: "rot90 w h p * 4 + 3 < length acc" using rp la by simp
  have j: "rot90 w h q * 4 + c < length acc" using rq la c by simp
  show "length (copyPixel dat pg w h 90 acc p) = w * h * 4"
    by (simp add: copyPixel_90[OF p la ld pg] la)
  show "copyPixel dat pg w h 90 acc p ! (rot90 w h q * 4 + c)
           = (if q = p then dat ! (p * 4 + c) else acc ! (rot90 w h q * 4 + c))"
  proof (cases "q = p")
    case True
    have j': "rot90 w h p * 4 + c < length acc" using j True by simp
    from c consider "c = 0" | "c = 1" | "c = 2" | "c = 3" by linarith
    then have "(if rot90 w h p * 4 + c = rot90 w h p * 4 then dat ! (p * 4)
           else if rot90 w h p * 4 + c = rot90 w h p * 4 + 1 then dat ! (p * 4 + 1)
           else if rot90 w h p * 4 + c = rot90 w h p * 4 + 2 then dat ! (p * 4 + 2)
           else if rot90 w h p * 4 + c = rot90 w h p * 4 + 3 then dat ! (p * 4 + 3)
           else acc ! (rot90 w h p * 4 + c)) = dat ! (p * 4 + c)"
      by cases simp_all
    then show ?thesis
      unfolding copyPixel_90[OF p la ld pg] True put4_nth[OF a3 j'] by simp
  next
    case False
    then have "rot90 w h q \<noteq> rot90 w h p" using rot90_inj[OF q p] by blast
    then have ne: "rot90 w h q * 4 + c \<noteq> rot90 w h p * 4 + d" if "d < 4" for d :: nat
      using c that by presburger
    have "(if rot90 w h q * 4 + c = rot90 w h p * 4 then dat ! (p * 4)
           else if rot90 w h q * 4 + c = rot90 w h p * 4 + 1 then dat ! (p * 4 + 1)
           else if rot90 w h q * 4 + c = rot90 w h p * 4 + 2 then dat ! (p * 4 + 2)
           else if rot90 w h q * 4 + c = rot90 w h p * 4 + 3 then dat ! (p * 4 + 3)
           else acc ! (rot90 w h q * 4 + c)) = acc ! (rot90 w h q * 4 + c)"
      using ne[of 0] ne[of 1] ne[of 2] ne[of 3] by simp
    then show ?thesis
      unfolding copyPixel_90[OF p la ld pg] put4_nth[OF a3 j] using False by simp
  qed
qed

lemma scatter_90:
  assumes ld: "length dat = w * h * 4" and pg: "startPixel pg = 0" and m: "m \<le> w * h"
  shows "length (foldl (copyPixel dat pg w h 90) (replicate (w * h * 4) 0) [0..<m]) = w * h * 4
       \<and> (\<forall>q < w * h. \<forall>c < 4.
            foldl (copyPixel dat pg w h 90) (replicate (w * h * 4) 0) [0..<m] ! (rot90 w h q * 4 + c)
              = (if q < m then dat ! (q * 4 + c) else 0))"
  using m
proof (induction m)
  case 0
  have "\<And>q c. q < w * h \<Longrightarrow> c < (4::nat) \<Longrightarrow> rot90 w h q * 4 + c < w * h * 4"
    using rot90_less[of _ w h] by fastforce
  then show ?case by simp
next
  case (Suc m)
  define G where "G = foldl (copyPixel dat pg w h 90) (replicate (w * h * 4) 0) [0..<m]"
  from Suc have mp: "m < w * h" and lG: "length G = w * h * 4"
    and IH: "\<And>q c. q < w * h \<Longrightarrow> c < (4::nat) \<Longrightarrow> G ! (rot90 w h q * 4 + c) = (if q < m then dat ! (q * 4 + c) else 0)"
    by (simp_all add: G_def)
  have step: "foldl (copyPixel dat pg w h 90) (replicate (w * h * 4) 0) [0..<Suc m]
      = copyPixel dat pg w h 90 G m" by (simp add: G_def)
  show ?case
    unfolding step
  proof (intro conjI allI impI)
    show "length (copyPixel dat pg w h 90 G m) = w * h * 4"
      by (rule copyPixel_90_nth(2)[OF mp lG ld pg mp, of 0]) simp
  next
    fix q :: nat and c :: nat assume q: "q < w * h" and c: "c < 4"
    show "copyPixel dat pg w h 90 G m ! (rot90 w h q * 4 + c)
        = (if q < Suc m then dat ! (q * 4 + c) else 0)"
      unfolding copyPixel_90_nth(1)[OF mp lG ld pg q c]
      using IH[OF q c] by (auto simp: less_Suc_eq)
  qed
qed

lemma copyPixel_slice:
  assumes pg: "startPixel pg = b" and pg0: "startPixel pg0 = 0" and k: "k < cnt"
    and fit: "b * 4 + cnt * 4 \<le> length dat"
  shows "copyPixel (take (cnt * 4) (drop (b * 4) dat)) pg w h rotation acc k
           = copyPixel dat pg0 w h rotation acc (b + k)"
proof -
  have rd: "readByte (take (cnt * 4) (drop (b * 4) dat)) (k * 4 + c)
      = readByte dat ((b + k) * 4 + c)" if "c < 4" for c
  proof -
    have 1: "k * 4 + c < cnt * 4" using k that by simp
    have 2: "(b + k) * 4 + c < length dat" using 1 fit by (simp add: algebra_simps)
    have 3: "k * 4 + c < length (take (cnt * 4) (drop (b * 4) dat))" using 1 fit by simp
    have "take (cnt * 4) (drop (b * 4) dat) ! (k * 4 + c) = dat ! (b * 4 + (k * 4 + c))"
      using 1 fit by simp
    also have "b * 4 + (k * 4 + c) = (b + k) * 4 + c" by (simp add: algebra_simps)
    finally show ?thesis using 2 3 by (simp only: readByte_def if_True)
  qed
  have rd0: "readByte (take (cnt * 4) (drop (b * 4) dat)) (k * 4) = readByte dat ((b + k) * 4)"
    using rd[of 0] by simp
  have o: "(1::nat) < 4" "(2::nat) < 4" "(3::nat) < 4" by simp_all
  show ?thesis
    by (simp only: copyPixel_def pg pg0 Let_def rd0 rd[OF o(1)] rd[OF o(2)] rd[OF o(3)] add_0)
qed

lemma applyChunk_slice:
  assumes rot: "rotation \<noteq> 0"
    and pg: "startPixel pg = b" and pg0: "startPixel pg0 = 0"
    and fit: "b * 4 + cnt * 4 \<le> length dat"
  shows "applyChunkToOutput (take (cnt * 4) (drop (b * 4) dat)) acc pg w h rotation
           = foldl (copyPixel dat pg0 w h rotation) acc [b..<b + cnt]"
proof -
  have l: "length (take (cnt * 4) (drop (b * 4) dat)) = cnt * 4" using fit by simp
  have c: "(cnt * 4 + 3) div 4 = cnt" by simp
  have "applyChunkToOutput (take (cnt * 4) (drop (b * 4) dat)) acc pg w h rotation
      = foldl (copyPixel (take (cnt * 4) (drop (b * 4) dat)) pg w h rotation) acc [0..<cnt]"
    unfolding applyChunkToOutput_def l c using rot by simp
  also have "\<dots> = foldl (\<lambda>a k. copyPixel dat pg0 w h rotation a (b + k)) acc [0..<cnt]"
    by (rule foldl_cong[OF refl refl]) (simp add: copyPixel_slice[OF pg pg0 _ fit])
  also have "\<dots> = foldl (copyPixel dat pg0 w h rotation) acc (map (\<lambda>k. b + k) [0..<cnt])"
    by (simp add: foldl_map)
  also have "map (\<lambda>k. b + k) [0..<cnt] = [b..<b + cnt]"
    using map_add_upt[of b cnt] by (simp add: add.commute)
  finally show ?thesis .
qed

lemma rotate_pages:
  assumes P: "0 < pixelsPerPage cfg"
    and len: "length (imgdata img) = width img * height img * 4"
    and rot: "rotation \<noteq> 0"
    and j: "j \<le> numPages cfg img"
  shows "foldl (\<lambda>acc i. applyChunkToOutput (the (data (newPage cfg img 0 i))) acc
                          (newPage cfg img 0 i) w h rotation) acc0 [0..<j]
         = foldl (copyPixel (imgdata img) (newPage cfg img 0 0) w h rotation) acc0
             [0..<min (j * nat (pixelsPerPage cfg)) (width img * height img)]"
  using j
proof (induction j)
  case 0
  then show ?case by simp
next
  case (Suc j)
  define N where "N = width img * height img"
  define Q where "Q = nat (pixelsPerPage cfg)"
  define dat where "dat = imgdata img"
  define F where "F = (\<lambda>acc i. applyChunkToOutput (the (data (newPage cfg img 0 i))) acc
                          (newPage cfg img 0 i) w h rotation)"
  define e where "e = min ((j + 1) * Q) N"
  from Suc.prems have jn: "j < numPages cfg img" by simp
  then have jq: "j * Q < N" using numPages_less_iff[OF P] by (simp add: Q_def N_def)
  have ld: "length dat = N * 4" using len by (simp add: dat_def N_def)
  have ej: "j * Q \<le> e" and eN: "e \<le> N" using jq by (simp_all add: e_def)
  have IH: "foldl F acc0 [0..<j]
      = foldl (copyPixel dat (newPage cfg img 0 0) w h rotation) acc0 [0..<j * Q]"
    using Suc.IH jn jq unfolding F_def N_def Q_def dat_def by (simp add: min_def)
  have pd: "the (data (newPage cfg img 0 j)) = take ((e - j * Q) * 4) (drop (j * Q * 4) dat)"
    by (simp add: newPage_fields e_def Q_def N_def dat_def diff_mult_distrib)
  have pg: "startPixel (newPage cfg img 0 j) = j * Q" by (simp add: newPage_fields Q_def)
  have pg0: "startPixel (newPage cfg img 0 0) = 0" by (simp add: newPage_fields)
  have fit: "j * Q * 4 + (e - j * Q) * 4 \<le> length dat" using ej eN ld by simp
  have "foldl F acc0 [0..<Suc j] = F (foldl F acc0 [0..<j]) j" by simp
  also have "\<dots> = applyChunkToOutput (take ((e - j * Q) * 4) (drop (j * Q * 4) dat))
        (foldl F acc0 [0..<j]) (newPage cfg img 0 j) w h rotation"
    by (simp add: F_def pd)
  also have "\<dots> = foldl (copyPixel dat (newPage cfg img 0 0) w h rotation)
        (foldl F acc0 [0..<j]) [j * Q..<j * Q + (e - j * Q)]"
    by (rule applyChunk_slice[OF rot pg pg0 fit])
  also have "\<dots> = foldl (copyPixel dat (newPage cfg img 0 0) w h rotation) acc0
        ([0..<j * Q] @ [j * Q..<j * Q + (e - j * Q)])"
    unfolding IH by simp
  also have "[0..<j * Q] @ [j * Q..<j * Q + (e - j * Q)] = [0..<e]"
    using ej by (metis add.left_neutral le_add_diff_inverse upt_add_eq_append zero_le)
  finally show ?case
    unfolding F_def dat_def e_def Q_def N_def by simp
qed

lemma rotatePages_90:
  assumes P: "0 < pixelsPerPage cfg"
    and len: "length (imgdata img) = width img * height img * 4"
  shows "width (rotatePages cfg img 90) = height img"
    and "height (rotatePages cfg img 90) = width img"
    and "length (imgdata (rotatePages cfg img 90)) = width img * height img * 4"
    and "\<And>q c. q < width img * height img \<Longrightarrow> c < 4 \<Longrightarrow>
           imgdata (rotatePages cfg img 90) ! (rot90 (width img) (height img) q * 4 + c)
             = imgdata img ! (q * 4 + c)"
proof -
  define N where "N = width img * height img"
  have r: "(90::int) mod 180 \<noteq> 0" "(90::int) \<noteq> 0" by simp_all
  have m: "min (numPages cfg img * nat (pixelsPerPage cfg)) N = N"
    using numPages_covers[OF P, of img] by (simp add: N_def)
  have "imgdata (rotatePages cfg img 90)
      = foldl (\<lambda>acc i. applyChunkToOutput (the (data (newPage cfg img 0 i))) acc
                          (newPage cfg img 0 i) (width img) (height img) 90)
          (replicate (height img * width img * 4) 0) [0..<numPages cfg img]"
    unfolding rotatePages_def Let_def using r(1) by simp
  also have "\<dots> = foldl (copyPixel (imgdata img) (newPage cfg img 0 0) (width img) (height img) 90)
          (replicate (height img * width img * 4) 0)
          [0..<min (numPages cfg img * nat (pixelsPerPage cfg)) (width img * height img)]"
    by (rule rotate_pages[OF P len r(2) le_refl])
  also have "min (numPages cfg img * nat (pixelsPerPage cfg)) (width img * height img) = N"
    using m by (simp only: N_def)
  also have "height img * width img * 4 = N * 4" by (simp add: N_def)
  finally have d: "imgdata (rotatePages cfg img 90)
      = foldl (copyPixel (imgdata img) (newPage cfg img 0 0) (width img) (height img) 90)
          (replicate (N * 4) 0) [0..<N]" .
  have pg0: "startPixel (newPage cfg img 0 0) = 0" by (simp add: newPage_fields)
  note sc = scatter_90[OF len pg0 le_refl, folded N_def, folded d]
  show "width (rotatePages cfg img 90) = height img"
    and "height (rotatePages cfg img 90) = width img"
    unfolding rotatePages_def Let_def by simp_all
  show "length (imgdata (rotatePages cfg img 90)) = width img * height img * 4"
    using sc by (simp add: N_def)
  show "imgdata (rotatePages cfg img 90) ! (rot90 (width img) (height img) q * 4 + c)
             = imgdata img ! (q * 4 + c)" if "q < width img * height img" "c < 4" for q c
    using sc that by (simp add: N_def)
qed

subsection \<open>Rotating four times\<close>

lemma rotate_twice:
  assumes P: "0 < pixelsPerPage cfg"
    and len: "length (imgdata img) = width img * height img * 4"
  shows "width (rotatePages cfg (rotatePages cfg img 90) 90) = width img"
    and "height (rotatePages cfg (rotatePages cfg img 90) 90) = height img"
    and "length (imgdata (rotatePages cfg (rotatePages cfg img 90) 90)) = width img * height img * 4"
    and "\<And>p c. p < width img * height img \<Longrightarrow> c < 4 \<Longrightarrow>
           imgdata (rotatePages cfg (rotatePages cfg img 90) 90)
             ! ((width img * height img - 1 - p) * 4 + c)
           = imgdata img ! (p * 4 + c)"
proof -
  define img1 where "img1 = rotatePages cfg img 90"
  note r1 = rotatePages_90[OF P len, folded img1_def]
  have len1: "length (imgdata img1) = width img1 * height img1 * 4"
    using r1(1,2,3) by (simp add: mult.commute)
  note r2 = rotatePages_90[OF P len1]
  show "width (rotatePages cfg img1 90) = width img" using r2(1) r1(2) by simp
  show "height (rotatePages cfg img1 90) = height img" using r2(2) r1(1) by simp
  show "length (imgdata (rotatePages cfg img1 90)) = width img * height img * 4"
    using r2(3) r1(1,2) by (simp add: mult.commute)
  show "imgdata (rotatePages cfg img1 90) ! ((width img * height img - 1 - p) * 4 + c)
           = imgdata img ! (p * 4 + c)" if p: "p < width img * height img" and c: "c < 4" for p c
  proof -
    define q where "q = rot90 (width img) (height img) p"
    have q: "q < width img1 * height img1"
      using rot90_less[OF p] r1(1,2) by (simp add: q_def mult.commute)
    have "rot90 (width img1) (height img1) q = width img * height img - 1 - p"
      unfolding r1(1,2) q_def by (rule rot90_twice[OF p])
    with r2(4)[OF q c] have "imgdata (rotatePages cfg img1 90) ! ((width img * height img - 1 - p) * 4 + c)
        = imgdata img1 ! (q * 4 + c)" by simp
    also have "\<dots> = imgdata img ! (p * 4 + c)"
      unfolding q_def by (rule r1(4)[OF p c])
    finally show ?thesis .
  qed
qed

lemma rotate_four_times:
  assumes P: "0 < pixelsPerPage cfg"
    and len: "length (imgdata img) = width img * height img * 4"
  shows "rotatePages cfg (rotatePages cfg (rotatePages cfg (rotatePages cfg img 90) 90) 90) 90 = img"
proof -
  define N where "N = width img * height img"
  define img2 where "img2 = rotatePages cfg (rotatePages cfg img 90) 90"
  define img4 where "img4 = rotatePages cfg (rotatePages cfg img2 90) 90"
  note a = rotate_twice[OF P len, folded img2_def N_def]
  have len2: "length (imgdata img2) = width img2 * height img2 * 4"
    using a(1,2,3) by (simp add: N_def)
  note b = rotate_twice[OF P len2, folded img4_def, unfolded a(1,2), folded N_def]
  have nth: "imgdata img4 ! j = imgdata img ! j" if j: "j < N * 4" for j
  proof -
    define p where "p = j div 4"
    define c where "c = j mod 4"
    have p: "p < N" and c: "c < 4" and jj: "j = p * 4 + c"
      using j by (simp_all add: p_def c_def less_mult_imp_div_less)
    define p' where "p' = N - 1 - p"
    have p': "p' < N" and pp: "N - 1 - p' = p" using p by (simp_all add: p'_def)
    have "imgdata img4 ! (p * 4 + c) = imgdata img2 ! (p' * 4 + c)"
      using b(4)[OF p' c] unfolding pp .
    also have "\<dots> = imgdata img ! (p * 4 + c)"
      unfolding p'_def by (rule a(4)[OF p c])
    finally show ?thesis by (simp add: jj)
  qed
  have "imgdata img4 = imgdata img"
    by (rule nth_equalityI) (simp_all add: b(3) len N_def[symmetric] nth)
  moreover have "width img4 = width img" "height img4 = height img"
    using b(1,2) by simp_all
  ultimately have "img4 = img" by (intro imageData.equality) simp_all
  then show ?thesis by (simp add: img4_def img2_def)
qed

lemma run_resident_rotation:
  assumes r: "resident cfg img s" and fn: "processChunkFn s = Some (processChunk rnd)"
    and w: "0 < width img" and h: "0 < height img"
  shows "snd (processImageChunks cfg s (Some img) identityAdjustments ''none'' rotation)
           = Inr (Some (rotatePages cfg img rotation))"
proof -
  note rd = residentD[OF r]
  define n where "n = numPages cfg img"
  define nw where "nw = (if rotation mod 180 \<noteq> 0 then height img else width img)"
  define nh where "nh = (if rotation mod 180 \<noteq> 0 then width img else height img)"
  define out0 where "out0 = replicate (nw * nh * 4) (0::byte)"
  define res where "res = processPages cfg (processChunk rnd) identityAdjustments ''none'' rotation
      (width img) (height img) (s, out0) [0..<n]"
  have a1: "\<forall>i < length (pageTable s). status (pageTable s ! i) = Active \<and> data (pageTable s ! i) \<noteq> None"
    using rd by (simp add: newPage_fields)
  have a2: "\<forall>i \<in> set [0..<n]. i < length (pageTable s)" using rd(1) by (simp add: n_def)
  note pa = processPages_active[OF a1 a2, of cfg "processChunk rnd" identityAdjustments "''none''" rotation
      "width img" "height img" out0, folded res_def]
  have out: "snd res = foldl (\<lambda>acc i. applyChunkToOutput (the (data (newPage cfg img 0 i))) acc
                          (newPage cfg img 0 i) (width img) (height img) rotation) out0 [0..<n]"
    unfolding conjunct2[OF conjunct2[OF pa]]
  proof (rule foldl_cong[OF refl refl])
    fix acc i assume "i \<in> set [0..<n]"
    then have i: "i < numPages cfg img" by (simp add: n_def)
    show "applyChunkToOutput (processChunk rnd (the (data (pageTable s ! i))) identityAdjustments ''none'')
            acc (untimed (pageTable s ! i)) (width img) (height img) rotation
        = applyChunkToOutput (the (data (newPage cfg img 0 i))) acc
            (newPage cfg img 0 i) (width img) (height img) rotation"
      by (simp add: rd(2)[OF i] rd(4)[OF i])
  qed
  have run: "processImageChunks cfg s (Some img) identityAdjustments ''none'' rotation
      = (updateMemoryStats (fst res),
         Inr (Some \<lparr> width = nw, height = nh, imgdata = snd res \<rparr>))"
    unfolding processImageChunks_def Let_def res_def out0_def n_def nw_def nh_def
    using fn w h rd(1) by simp
  have "rotatePages cfg img rotation = \<lparr> width = nw, height = nh, imgdata = snd res \<rparr>"
    unfolding rotatePages_def Let_def out nw_def nh_def out0_def n_def by simp
  with run show ?thesis by simp
qed

text \<open>
  C6. For every image whose buffer has \<open>width * height * 4\<close> bytes, whatever its width
  and height, and for every size of page that holds at least one pixel: rotating by 90
  degrees four times gives back the image, every pixel at its place with its four channel
  values. One rotation swaps width and height and puts the pixel \<open>(x, y)\<close> at
  \<open>(height - 1 - y, x)\<close>. This rotation is what a run with rotation 90 and no adjustment
  returns when every page of the image is in the table with its data.
\<close>

theorem rotate90_round_trip:
  assumes "0 < pixelsPerPage cfg"
    and "length (imgdata img) = width img * height img * 4"
  shows "rotatePages cfg (rotatePages cfg (rotatePages cfg (rotatePages cfg img 90) 90) 90) 90 = img
       \<and> width (rotatePages cfg img 90) = height img
       \<and> height (rotatePages cfg img 90) = width img
       \<and> (\<forall>q < width img * height img. \<forall>c < 4.
            imgdata (rotatePages cfg img 90)
              ! (((q mod width img) * height img + (height img - 1 - q div width img)) * 4 + c)
            = imgdata img ! (q * 4 + c))
       \<and> (resident cfg img s \<and> processChunkFn s = Some (processChunk rnd)
            \<and> 0 < width img \<and> 0 < height img \<longrightarrow>
          snd (processImageChunks cfg s (Some img) identityAdjustments ''none'' 90)
            = Inr (Some (rotatePages cfg img 90)))"
  using rotate_four_times[OF assms] rotatePages_90[OF assms] run_resident_rotation[of cfg img s rnd 90]
  by (simp add: rot90_def)

theorem rotate90_round_trip_witness:
  "0 < pixelsPerPage (unitConfig 6)
   \<and> length (imgdata grid32) = width grid32 * height grid32 * 4
   \<and> rotatePages (unitConfig 6) (rotatePages (unitConfig 6) (rotatePages (unitConfig 6)
        (rotatePages (unitConfig 6) grid32 90) 90) 90) 90 = grid32
   \<and> rotatePages (unitConfig 6) grid32 90
       = \<lparr> width = 2, height = 3,
           imgdata = [40, 41, 42, 43, 10, 11, 12, 13, 50, 51, 52, 53,
                      20, 21, 22, 23, 60, 61, 62, 63, 30, 31, 32, 33] \<rparr>
   \<and> resident (unitConfig 6) grid32 storedGrid
   \<and> snd (processImageChunks (unitConfig 6) storedGrid (Some grid32) identityAdjustments ''none'' 90)
       = Inr (Some (rotatePages (unitConfig 6) grid32 90))"
proof -
  have p: "0 < pixelsPerPage (unitConfig 6)" by (simp add: pixelsPerPage_def unitConfig_def)
  have l: "length (imgdata grid32) = width grid32 * height grid32 * 4" by (simp add: grid32_def)
  have r: "resident (unitConfig 6) grid32 storedGrid" by code_simp
  have n: "numPages (unitConfig 6) grid32 \<le> capacity (unitConfig 6)"
    by (simp add: numPages_def capacity_def pixelsPerPage_def unitConfig_def grid32_def)
  have x: "exactSums (unitConfig 6) (numPages (unitConfig 6) grid32)"
    by (simp add: exactSums_def unitConfig_def exact_def)
  from store_fits[OF p x n, of readyState] obtain s1 where
    s1: "storeImage (unitConfig 6) readyState (Some grid32) = Some s1"
      "\<forall>i < length (pageTable s1). status (pageTable s1 ! i) = Active" by blast
  have "storedGrid = s1" by (simp add: storedGrid_def s1(1))
  with store_active_resident(2)[OF p s1] have f: "processChunkFn storedGrid = Some (processChunk exact)"
    by (simp add: readyState_def registerChunkProcessor_def)
  have w: "0 < width grid32" "0 < height grid32" by (simp_all add: grid32_def)
  have e: "rotatePages (unitConfig 6) grid32 90
       = \<lparr> width = 2, height = 3,
           imgdata = [40, 41, 42, 43, 10, 11, 12, 13, 50, 51, 52, 53,
                      20, 21, 22, 23, 60, 61, 62, 63, 30, 31, 32, 33] \<rparr>" by code_simp
  from rotate90_round_trip[OF p l, of storedGrid exact] r f w p l e show ?thesis by simp
qed

end
